theory Spec2Isabelle
  imports Complex_Main "HOL-Library.Word"
begin

unbundle bit_operations_syntax

section \<open>Data model of cont\_frame\_pool.C\<close>

text \<open>
  The kernel this allocator belongs to is built for 32-bit x86: \<^verbatim>\<open>unsigned long\<close>,
  \<^verbatim>\<open>unsigned int\<close>, \<^verbatim>\<open>int\<close> and pointers are all 32 bits wide, so frame
  numbers, counters and addresses are \<open>32 word\<close> (arithmetic wraps modulo \<open>2 ^ 32\<close>) and
  a byte of physical memory is an \<open>8 word\<close>. The null pointer is the address \<open>0\<close>.
\<close>

type_synonym byte = "8 word"
type_synonym ulong = "32 word"
type_synonym ptr = "32 word"

text \<open>The enumeration \<^verbatim>\<open>FrameState\<close>, with the four enumerators the source names.\<close>

datatype FrameState = Free | Used | HoS | Error

text \<open>
  Calls to the console, in the order they are made: \<^verbatim>\<open>Console::puts\<close> with its
  string and \<^verbatim>\<open>Console::puti\<close> with its number.
\<close>

datatype out = Puts string | Puti ulong

text \<open>
  The fields of a \<^verbatim>\<open>ContFramePool\<close> object. The source's link fields
  \<^verbatim>\<open>next\<close> and \<^verbatim>\<open>prev\<close> are \<open>next_pool\<close> and \<open>prev_pool\<close> here.
\<close>

record ContFramePool =
  bitmap :: ptr
  nFreeFrames :: ulong
  base_frame_no :: ulong
  nframes :: ulong
  info_frame_no :: ulong
  next_pool :: ptr
  prev_pool :: ptr

text \<open>
  The machine state: the bytes of physical memory by address, the pool objects by the
  address of the object (\<^verbatim>\<open>this\<close>), the two static members \<^verbatim>\<open>head\<close> and
  \<^verbatim>\<open>tail\<close> of the registry, and what has been sent to the console so far.
\<close>

record kernel =
  mem :: "ptr \<Rightarrow> byte"
  obj :: "ptr \<Rightarrow> ContFramePool"
  head :: ptr
  tail :: ptr
  console :: "out list"

datatype error = AssertionFailed | DivideError

section \<open>State codec\<close>

definition NL :: string where
  "NL = [CHR 0x0A]"

definition get_state :: "ptr \<Rightarrow> ulong \<Rightarrow> kernel \<Rightarrow> FrameState \<times> kernel" where
  "get_state this frame_no k =
     (let bitmap_index = frame_no div 4;
          framePos = (frame_no mod 4) * 2;
          LSB = drop_bit (unat framePos) (mem k (bitmap (obj k this) + bitmap_index)) AND 0x3
      in if LSB = 0x0 then (Free, k)
         else if LSB = 0x1 then (Used, k)
         else if LSB = 0x2 then (HoS, k)
         else (Error,
               k\<lparr>console := console k @ [Puts (''ERROR: Invalid frame state detected!'' @ NL)]\<rparr>))"

definition set_state :: "ptr \<Rightarrow> ulong \<Rightarrow> FrameState \<Rightarrow> kernel \<Rightarrow> kernel" where
  "set_state this frame_no st k =
     (let bitmap_index = frame_no div 4;
          framePos = (frame_no mod 4) * 2;
          mask = push_bit (unat framePos) (0x3 :: byte);
          a = bitmap (obj k this) + bitmap_index
      in case st of
           Used \<Rightarrow> k\<lparr>mem := (mem k)(a := (mem k a AND NOT mask) OR push_bit (unat framePos) 0x1)\<rparr>
         | Free \<Rightarrow> k\<lparr>mem := (mem k)(a := mem k a AND NOT mask)\<rparr>
         | HoS \<Rightarrow> k\<lparr>mem := (mem k)(a := (mem k a AND NOT mask) OR push_bit (unat framePos) 0x2)\<rparr>
         | Error \<Rightarrow> k)"

section \<open>Small state updates\<close>

text \<open>A call of \<^verbatim>\<open>Console::puts\<close> or \<^verbatim>\<open>Console::puti\<close> appends to the console.\<close>

definition puts :: "string \<Rightarrow> kernel \<Rightarrow> kernel" where
  "puts s k = k\<lparr>console := console k @ [Puts s]\<rparr>"

definition puti :: "ulong \<Rightarrow> kernel \<Rightarrow> kernel" where
  "puti n k = k\<lparr>console := console k @ [Puti n]\<rparr>"

text \<open>An assignment to fields of the pool object at address \<open>p\<close>.\<close>

definition upd_obj :: "ptr \<Rightarrow> (ContFramePool \<Rightarrow> ContFramePool) \<Rightarrow> kernel \<Rightarrow> kernel" where
  "upd_obj p f k = k\<lparr>obj := (obj k)(p := f (obj k p))\<rparr>"

section \<open>Constructor\<close>

text \<open>
  \<^verbatim>\<open>for (int fno = 0; fno < nframes; fno++) set_state(fno, FrameState::Free);\<close>
  The comparison is made in \<^verbatim>\<open>unsigned long\<close>.
\<close>

function free_loop :: "ptr \<Rightarrow> ulong \<Rightarrow> kernel \<Rightarrow> kernel" where
  "free_loop this fno k =
     (if fno < nframes (obj k this)
      then free_loop this (fno + 1) (set_state this fno Free k)
      else k)"
  by pat_completeness auto
termination
proof (relation "measure (\<lambda>(this, fno, k). unat (nframes (obj k this)) - unat fno)")
  show "wf (measure (\<lambda>(this, fno, k). unat (nframes (obj k this)) - unat fno))"
    by simp
next
  fix this fno :: ulong and k :: kernel
  assume lt: "fno < nframes (obj k this)"
  have o: "obj (set_state this fno Free k) = obj k"
    by (simp add: set_state_def Let_def)
  have "unat (fno + 1) = unat fno + 1"
    using lt unsigned_less [of "nframes (obj k this)", where 'a = nat]
    by (simp add: unat_word_ariths word_less_nat_alt)
  moreover have "unat fno < unat (nframes (obj k this))"
    using lt by (simp add: word_less_nat_alt)
  ultimately show "((this, fno + 1, set_state this fno Free k), this, fno, k)
      \<in> measure (\<lambda>(this, fno, k). unat (nframes (obj k this)) - unat fno)"
    by (simp add: o)
qed

declare free_loop.simps [simp del]

text \<open>
  The constructor runs on the storage of the new object, at address \<open>this\<close>; what that
  storage held before is \<open>obj k this\<close>, and the fields the constructor does not assign
  keep it. \<^verbatim>\<open>FRAME_SIZE\<close> is declared in a header that is not part of the sources, so
  it is a parameter. A failed \<^verbatim>\<open>assert\<close> stops the kernel: \<open>Inl AssertionFailed\<close>.
\<close>

definition ContFramePool_ctor ::
  "ulong \<Rightarrow> ptr \<Rightarrow> ulong \<Rightarrow> ulong \<Rightarrow> ulong \<Rightarrow> kernel \<Rightarrow> error + kernel" where
  "ContFramePool_ctor FRAME_SIZE this base_frame_no' n_frames' info_frame_no' k =
     (if \<not> nframes (obj k this) * 2 \<le> FRAME_SIZE * 8 then Inl AssertionFailed
      else
        let k1 = upd_obj this (\<lambda>p. p\<lparr>base_frame_no := base_frame_no'\<rparr>) k;
            k2 = upd_obj this (\<lambda>p. p\<lparr>nframes := n_frames'\<rparr>) k1;
            k3 = upd_obj this (\<lambda>p. p\<lparr>nFreeFrames := n_frames'\<rparr>) k2;
            k4 = upd_obj this (\<lambda>p. p\<lparr>info_frame_no := info_frame_no'\<rparr>) k3;
            k5 = free_loop this 0 k4;
            k6 = (if info_frame_no (obj k5 this) = 0
                  then upd_obj this (\<lambda>p. p\<lparr>bitmap := FRAME_SIZE * base_frame_no p\<rparr>) k5
                  else upd_obj this (\<lambda>p. p\<lparr>bitmap := FRAME_SIZE * info_frame_no p\<rparr>) k5);
            k7 = set_state this (info_frame_no (obj k6 this)) HoS k6;
            k8 = upd_obj this (\<lambda>p. p\<lparr>nFreeFrames := nFreeFrames p - 1\<rparr>) k7;
            k9 = (if head k8 = 0
                  then (k8\<lparr>head := this\<rparr>)\<lparr>tail := this\<rparr>
                  else
                    let a = puts (''Attaching a frame pool'' @ NL) k8;
                        b = upd_obj (tail a) (\<lambda>p. p\<lparr>next_pool := this\<rparr>) a;
                        c = upd_obj this (\<lambda>p. p\<lparr>prev_pool := tail b\<rparr>) b;
                        d = c\<lparr>tail := this\<rparr>
                    in upd_obj (tail d) (\<lambda>p. p\<lparr>next_pool := 0\<rparr>) d)
        in Inr (puts (''Frame Pool initialized'' @ NL) k9))"

section \<open>Allocation\<close>

text \<open>
  \<^verbatim>\<open>while (get_state(frame_no) == Used || get_state(frame_no) == HoS) frame_no++;\<close>
  The second call is made only when the first did not answer \<open>Used\<close>. Nothing bounds
  the loop, so it is a partial function: \<open>None\<close> is the loop that never ends.
\<close>

partial_function (option) scan_loop :: "ptr \<Rightarrow> ulong \<Rightarrow> kernel \<Rightarrow> (ulong \<times> kernel) option" where
  "scan_loop this frame_no k =
     (if fst (get_state this frame_no k) = Used
      then scan_loop this (frame_no + 1) (snd (get_state this frame_no k))
      else
        let k1 = snd (get_state this frame_no k) in
        if fst (get_state this frame_no k1) = HoS
        then scan_loop this (frame_no + 1) (snd (get_state this frame_no k1))
        else Some (frame_no, snd (get_state this frame_no k1)))"

declare scan_loop.simps [code]

text \<open>The body of the \<^verbatim>\<open>for\<close> loop of \<^verbatim>\<open>get_frames\<close>, at one \<open>frame_no\<close>.\<close>

definition used_step :: "ptr \<Rightarrow> ulong \<Rightarrow> kernel \<Rightarrow> kernel" where
  "used_step this frame_no k =
     (let k1 = snd (get_state this frame_no k);
          k2 = (if fst (get_state this frame_no k) = Used
                then puts (''get_frame(): allocating used or HoS frames'' @ NL) k1
                else if fst (get_state this frame_no k1) = HoS
                then puts (''get_frame(): allocating used or HoS frames'' @ NL)
                       (snd (get_state this frame_no k1))
                else snd (get_state this frame_no k1));
          k3 = set_state this frame_no Used k2
      in upd_obj this (\<lambda>p. p\<lparr>nFreeFrames := nFreeFrames p - 1\<rparr>) k3)"

text \<open>
  \<^verbatim>\<open>for (unsigned int i = 0; i < _n_frames - 1; i++) { ...; frame_no++; nFreeFrames--; }\<close>
  with \<open>count\<close> the value of \<^verbatim>\<open>_n_frames - 1\<close>.
\<close>

function used_loop :: "ptr \<Rightarrow> ulong \<Rightarrow> ulong \<Rightarrow> ulong \<Rightarrow> kernel \<Rightarrow> kernel" where
  "used_loop this count i frame_no k =
     (if i < count
      then used_loop this count (i + 1) (frame_no + 1) (used_step this frame_no k)
      else k)"
  by pat_completeness auto
termination
proof (relation "measure (\<lambda>(this, count, i, frame_no, k). unat count - unat i)")
  show "wf (measure (\<lambda>(this, count, i, frame_no, k). unat count - unat i))"
    by simp
next
  fix this count i frame_no :: ulong and k :: kernel
  assume lt: "i < count"
  have "unat (i + 1) = unat i + 1"
    using lt unsigned_less [of "count", where 'a = nat]
    by (simp add: unat_word_ariths word_less_nat_alt)
  moreover have "unat i < unat count"
    using lt by (simp add: word_less_nat_alt)
  ultimately show "((this, count, i + 1, frame_no + 1, used_step this frame_no k),
        this, count, i, frame_no, k)
      \<in> measure (\<lambda>(this, count, i, frame_no, k). unat count - unat i)"
    by simp
qed

declare used_loop.simps [simp del]

text \<open>
  \<^verbatim>\<open>get_frames\<close> answers the frame number and the new state; \<open>Inl AssertionFailed\<close>
  when \<^verbatim>\<open>assert(nFreeFrames > 0)\<close> fails; \<open>None\<close> when the scan never ends.
\<close>

definition get_frames :: "ptr \<Rightarrow> ulong \<Rightarrow> kernel \<Rightarrow> (error + ulong \<times> kernel) option" where
  "get_frames this n_frames' k =
     (if \<not> nFreeFrames (obj k this) > 0 then Some (Inl AssertionFailed)
      else
        case scan_loop this 0 k of
          None \<Rightarrow> None
        | Some (frame_no, k1) \<Rightarrow>
            let beginning_frame_no = frame_no;
                k2 = set_state this frame_no HoS k1;
                k3 = upd_obj this (\<lambda>p. p\<lparr>nFreeFrames := nFreeFrames p - 1\<rparr>) k2;
                k4 = used_loop this (n_frames' - 1) 0 (frame_no + 1) k3
            in Some (Inr (beginning_frame_no + base_frame_no (obj k4 this), k4)))"

section \<open>Reservation\<close>

text \<open>
  \<^verbatim>\<open>for (int fno = _base_frame_no; fno < _base_frame_no + _n_frames; fno++)\<close>
  \<^verbatim>\<open>set_state(fno - this->base_frame_no, FrameState::Used);\<close>
  with \<open>end_frame\<close> the value of \<^verbatim>\<open>_base_frame_no + _n_frames\<close>; the comparison and the
  subtraction are made in \<^verbatim>\<open>unsigned long\<close>.
\<close>

function mark_loop :: "ptr \<Rightarrow> ulong \<Rightarrow> ulong \<Rightarrow> kernel \<Rightarrow> kernel" where
  "mark_loop this end_frame fno k =
     (if fno < end_frame
      then mark_loop this end_frame (fno + 1)
             (set_state this (fno - base_frame_no (obj k this)) Used k)
      else k)"
  by pat_completeness auto
termination
proof (relation "measure (\<lambda>(this, end_frame, fno, k). unat end_frame - unat fno)")
  show "wf (measure (\<lambda>(this, end_frame, fno, k). unat end_frame - unat fno))"
    by simp
next
  fix this end_frame fno :: ulong and k :: kernel
  assume lt: "fno < end_frame"
  have "unat (fno + 1) = unat fno + 1"
    using lt unsigned_less [of "end_frame", where 'a = nat]
    by (simp add: unat_word_ariths word_less_nat_alt)
  moreover have "unat fno < unat end_frame"
    using lt by (simp add: word_less_nat_alt)
  ultimately show "((this, end_frame, fno + 1, set_state this (fno - base_frame_no (obj k this)) Used k),
        this, end_frame, fno, k)
      \<in> measure (\<lambda>(this, end_frame, fno, k). unat end_frame - unat fno)"
    by simp
qed

declare mark_loop.simps [simp del]

definition mark_inaccessible :: "ptr \<Rightarrow> ulong \<Rightarrow> ulong \<Rightarrow> kernel \<Rightarrow> kernel" where
  "mark_inaccessible this base_frame_no' n_frames' k =
     mark_loop this (base_frame_no' + n_frames') base_frame_no' k"

section \<open>Release\<close>

text \<open>
  \<^verbatim>\<open>while (frame < temp->nframes && temp->get_state(frame) == FrameState::Used)\<close>
  \<^verbatim>\<open>{ temp->set_state(frame, FrameState::Free); frame++; temp->nFreeFrames++; }\<close>
  The state is read only when the bound holds. The answer is the final \<open>frame\<close> and state.
\<close>

function free_run :: "ptr \<Rightarrow> ulong \<Rightarrow> kernel \<Rightarrow> ulong \<times> kernel" where
  "free_run temp frame k =
     (if frame < nframes (obj k temp) \<and> fst (get_state temp frame k) = Used
      then free_run temp (frame + 1)
             (upd_obj temp (\<lambda>p. p\<lparr>nFreeFrames := nFreeFrames p + 1\<rparr>)
               (set_state temp frame Free (snd (get_state temp frame k))))
      else (frame, if frame < nframes (obj k temp) then snd (get_state temp frame k) else k))"
  by pat_completeness auto
termination
proof (relation "measure (\<lambda>(temp, frame, k). unat (nframes (obj k temp)) - unat frame)")
  show "wf (measure (\<lambda>(temp, frame, k). unat (nframes (obj k temp)) - unat frame))"
    by simp
next
  fix temp frame :: ulong and k :: kernel
  assume "frame < nframes (obj k temp) \<and> fst (get_state temp frame k) = Used"
  then have lt: "frame < nframes (obj k temp)"
    by simp
  have o: "nframes (obj (upd_obj temp (\<lambda>p. p\<lparr>nFreeFrames := nFreeFrames p + 1\<rparr>)
              (set_state temp frame Free (snd (get_state temp frame k)))) temp)
           = nframes (obj k temp)"
    by (simp add: upd_obj_def set_state_def get_state_def Let_def)
  have "unat (frame + 1) = unat frame + 1"
    using lt unsigned_less [of "nframes (obj k temp)", where 'a = nat]
    by (simp add: unat_word_ariths word_less_nat_alt)
  moreover have "unat frame < unat (nframes (obj k temp))"
    using lt by (simp add: word_less_nat_alt)
  ultimately show "((temp, frame + 1,
         upd_obj temp (\<lambda>p. p\<lparr>nFreeFrames := nFreeFrames p + 1\<rparr>)
           (set_state temp frame Free (snd (get_state temp frame k)))),
        temp, frame, k)
      \<in> measure (\<lambda>(temp, frame, k). unat (nframes (obj k temp)) - unat frame)"
    by (simp add: o)
qed

declare free_run.simps [simp del]

text \<open>The four assignments that take the pool \<open>temp\<close> out of the list.\<close>

definition unlink :: "ptr \<Rightarrow> kernel \<Rightarrow> kernel" where
  "unlink temp k =
     (let k1 = (if prev_pool (obj k temp) \<noteq> 0
                then upd_obj (prev_pool (obj k temp))
                       (\<lambda>p. p\<lparr>next_pool := next_pool (obj k temp)\<rparr>) k
                else k);
          k2 = (if next_pool (obj k1 temp) \<noteq> 0
                then upd_obj (next_pool (obj k1 temp))
                       (\<lambda>p. p\<lparr>prev_pool := prev_pool (obj k1 temp)\<rparr>) k1
                else k1);
          k3 = (if temp = head k2 then k2\<lparr>head := next_pool (obj k2 temp)\<rparr> else k2)
      in if temp = tail k3 then k3\<lparr>tail := prev_pool (obj k3 temp)\<rparr> else k3)"

text \<open>What \<^verbatim>\<open>release_frames\<close> does once \<open>temp\<close> is the pool whose range holds the frame.\<close>

definition release_found :: "ulong \<Rightarrow> ptr \<Rightarrow> kernel \<Rightarrow> kernel" where
  "release_found first_frame_no temp k =
     (let frame = first_frame_no - base_frame_no (obj k temp) in
      if fst (get_state temp frame k) \<noteq> HoS
      then puts ''release_frames(): first frame not a Head-Of-Sequence''
             (snd (get_state temp frame k))
      else
        let k1 = puts ''First Frame Freed: '' (snd (get_state temp frame k));
            k2 = puti (frame + base_frame_no (obj k1 temp)) k1;
            k3 = puts NL k2;
            k4 = set_state temp frame Free k3;
            k5 = upd_obj temp (\<lambda>p. p\<lparr>nFreeFrames := nFreeFrames p + 1\<rparr>) k4;
            r = free_run temp (frame + 1) k5;
            k6 = puts ''Last Frame Freed: '' (snd r);
            k7 = puti (fst r + base_frame_no (obj k6 temp) - 1) k6;
            k8 = puts NL k7
        in if nFreeFrames (obj k8 temp) = nframes (obj k8 temp)
           then unlink temp
                  (puts (''Entire frame pool is now free, removing from list.'' @ NL) k8)
           else k8)"

text \<open>
  \<^verbatim>\<open>while (temp) { if (in range) { ...; break; } temp = temp->next; }\<close>
  Every path through the range branch ends in \<^verbatim>\<open>break\<close>. The walk follows the
  \<^verbatim>\<open>next\<close> pointers and nothing bounds it, so it is a partial function.
\<close>

partial_function (option) release_loop :: "ulong \<Rightarrow> ptr \<Rightarrow> kernel \<Rightarrow> kernel option" where
  "release_loop first_frame_no temp k =
     (if temp = 0 then Some k
      else if base_frame_no (obj k temp) \<le> first_frame_no
              \<and> first_frame_no < base_frame_no (obj k temp) + nframes (obj k temp)
      then Some (release_found first_frame_no temp k)
      else release_loop first_frame_no (next_pool (obj k temp)) k)"

declare release_loop.simps [code]

definition release_frames :: "ulong \<Rightarrow> kernel \<Rightarrow> kernel option" where
  "release_frames first_frame_no k = release_loop first_frame_no (head k) k"

section \<open>Sizing\<close>

text \<open>
  \<^verbatim>\<open>FRAME_SIZE\<close> is a parameter, as in the constructor. The division traps when
  \<^verbatim>\<open>FRAME_SIZE * 8\<close> is zero: \<open>Inl DivideError\<close>.
\<close>

definition needed_info_frames :: "ulong \<Rightarrow> ulong \<Rightarrow> error + ulong" where
  "needed_info_frames FRAME_SIZE n_frames' =
     (let FRAME_SIZE_BITS = FRAME_SIZE * 8 in
      if FRAME_SIZE_BITS = 0 then Inl DivideError
      else Inr ((n_frames' * 2 + FRAME_SIZE_BITS - 1) div FRAME_SIZE_BITS))"

section \<open>Reading the state of a pool\<close>

text \<open>The state \<^verbatim>\<open>get_state\<close> answers for a frame, without the console.\<close>

definition frame_state :: "kernel \<Rightarrow> ptr \<Rightarrow> ulong \<Rightarrow> FrameState" where
  "frame_state k this f = fst (get_state this f k)"

text \<open>The two bits at position \<open>p\<close> of a byte, and the byte with these two bits replaced.\<close>

definition field_get :: "nat \<Rightarrow> byte \<Rightarrow> byte" where
  "field_get p b = drop_bit p b AND 3"

definition field_put :: "nat \<Rightarrow> byte \<Rightarrow> byte \<Rightarrow> byte" where
  "field_put p v b = (b AND NOT (push_bit p 3)) OR push_bit p v"

text \<open>The two bits that the bitmap of pool \<open>this\<close> holds for frame \<open>f\<close>.\<close>

definition frame_bits :: "kernel \<Rightarrow> ptr \<Rightarrow> ulong \<Rightarrow> byte" where
  "frame_bits k this f =
     field_get (2 * (unat f mod 4)) (mem k (bitmap (obj k this) + f div 4))"

text \<open>The encoding as the specification words it: 00, 01, 10 and the reserved 11.\<close>

fun encoding :: "FrameState \<Rightarrow> byte" where
  "encoding Free = 0"
| "encoding Used = 1"
| "encoding HoS = 2"
| "encoding Error = 3"

text \<open>The range test of \<^verbatim>\<open>release_frames\<close>, as the code writes it.\<close>

definition in_range :: "ContFramePool \<Rightarrow> ulong \<Rightarrow> bool" where
  "in_range p f \<longleftrightarrow> base_frame_no p \<le> f \<and> f < base_frame_no p + nframes p"

text \<open>The first pool of a list whose range holds frame \<open>f\<close>.\<close>

fun owner :: "(ptr \<Rightarrow> ContFramePool) \<Rightarrow> ulong \<Rightarrow> ptr list \<Rightarrow> ptr option" where
  "owner ob f [] = None"
| "owner ob f (x # xs) = (if in_range (ob x) f then Some x else owner ob f xs)"

text \<open>
  The registry as a list of pool addresses: \<open>path nx p ps q\<close> says that following the
  \<^verbatim>\<open>next\<close> pointers \<open>nx\<close> from \<open>p\<close> visits the pools \<open>ps\<close>, none of them null, and
  arrives at \<open>q\<close>; \<open>prevs pv q ps\<close> says that the \<^verbatim>\<open>prev\<close> pointer of each pool of \<open>ps\<close>
  is the pool before it, and \<open>q\<close> for the first. The registry holds \<open>ps\<close> when the path
  from \<^verbatim>\<open>head\<close> over \<open>ps\<close> ends in null, the back pointers agree, \<^verbatim>\<open>tail\<close> is the
  last pool (null for no pool) and no pool is linked twice.
\<close>

fun path :: "(ptr \<Rightarrow> ptr) \<Rightarrow> ptr \<Rightarrow> ptr list \<Rightarrow> ptr \<Rightarrow> bool" where
  "path nx p [] q \<longleftrightarrow> p = q"
| "path nx p (x # xs) q \<longleftrightarrow> p = x \<and> x \<noteq> 0 \<and> path nx (nx x) xs q"

fun prevs :: "(ptr \<Rightarrow> ptr) \<Rightarrow> ptr \<Rightarrow> ptr list \<Rightarrow> bool" where
  "prevs pv q [] \<longleftrightarrow> True"
| "prevs pv q (x # xs) \<longleftrightarrow> pv x = q \<and> prevs pv x xs"

definition registry :: "kernel \<Rightarrow> ptr list \<Rightarrow> bool" where
  "registry k ps \<longleftrightarrow>
     path (\<lambda>p. next_pool (obj k p)) (head k) ps 0
     \<and> prevs (\<lambda>p. prev_pool (obj k p)) 0 ps
     \<and> tail k = last (0 # ps)
     \<and> distinct ps"

text \<open>
  The state \<^verbatim>\<open>release_frames\<close> has reached, in its branch for a head of sequence,
  when it compares the free counter with the frame count.
\<close>

definition release_run :: "ulong \<Rightarrow> ptr \<Rightarrow> kernel \<Rightarrow> kernel" where
  "release_run first_frame_no temp k =
     (let frame = first_frame_no - base_frame_no (obj k temp);
          k1 = puts ''First Frame Freed: '' (snd (get_state temp frame k));
          k2 = puti (frame + base_frame_no (obj k1 temp)) k1;
          k3 = puts NL k2;
          k4 = set_state temp frame Free k3;
          k5 = upd_obj temp (\<lambda>p. p\<lparr>nFreeFrames := nFreeFrames p + 1\<rparr>) k4;
          r = free_run temp (frame + 1) k5;
          k6 = puts ''Last Frame Freed: '' (snd r);
          k7 = puti (fst r + base_frame_no (obj k6 temp) - 1) k6
      in puts NL k7)"

text \<open>Everything of the registry and of the pool objects but the free counters.\<close>

definition links :: "kernel \<Rightarrow> ptr \<times> ptr \<times> (ptr \<Rightarrow> ContFramePool)" where
  "links k = (head k, tail k, \<lambda>p. (obj k p)\<lparr>nFreeFrames := 0\<rparr>)"

section \<open>Example states\<close>

text \<open>
  Memory and object storage filled with zero bytes, an empty registry and an empty
  console: the state in which the examples below start.
\<close>

definition boot :: kernel where
  "boot = \<lparr>mem = (\<lambda>_. 0),
            obj = (\<lambda>_. \<lparr>bitmap = 0, nFreeFrames = 0, base_frame_no = 0, nframes = 0,
                         info_frame_no = 0, next_pool = 0, prev_pool = 0\<rparr>),
            head = 0, tail = 0, console = []\<rparr>"

text \<open>A result that is not a state stands for a failed construction: the examples never reach it.\<close>

definition constructed :: "error + kernel \<Rightarrow> kernel" where
  "constructed r = (case r of Inr k \<Rightarrow> k | Inl e \<Rightarrow> boot)"

text \<open>
  The pool of the specification's scenario: ten frames from frame 100 on, the bitmap in
  the base frame, frames of 4096 bytes, the pool object at address \<open>0x500\<close>.
\<close>

definition pool10 :: kernel where
  "pool10 = constructed (ContFramePool_ctor 4096 0x500 100 10 0 boot)"

text \<open>
  The same construction of a pool of four frames when the byte at address
  \<open>4096 * 100\<close>, where the bitmap will be, still holds \<open>0x0C\<close> from earlier use.
\<close>

definition stale :: kernel where
  "stale = boot\<lparr>mem := (mem boot)(0x64000 := 0x0C)\<rparr>"

definition pool4_stale :: kernel where
  "pool4_stale = constructed (ContFramePool_ctor 4096 0x500 100 4 0 stale)"

text \<open>What an allocation answered, and the state it left (\<open>boot\<close> when it gave none).\<close>

definition allocated :: "(error + ulong \<times> kernel) option \<Rightarrow> kernel" where
  "allocated r = (case r of Some (Inr (f, k)) \<Rightarrow> k | _ \<Rightarrow> boot)"

definition answer :: "(error + ulong \<times> kernel) option \<Rightarrow> (error + ulong) option" where
  "answer r = map_option (map_sum id fst) r"

text \<open>A second pool, of four frames from frame 200 on, constructed after the first.\<close>

definition two_pools :: kernel where
  "two_pools = constructed (ContFramePool_ctor 4096 0x600 200 4 0 pool10)"

text \<open>What a release left (\<open>boot\<close> when it gave no state).\<close>

definition released :: "kernel option \<Rightarrow> kernel" where
  "released r = (case r of Some k \<Rightarrow> k | None \<Rightarrow> boot)"

text \<open>
  The pool of ten frames after its own info frame, frame 100, has been released: all
  ten frames are free, and the pool has left the registry. The state is written out;
  \<open>retired_reached\<close> below shows that it is where \<open>release_frames 100\<close> takes \<open>pool10\<close>.
\<close>

definition retired :: kernel where
  "retired = \<lparr>mem = (\<lambda>_. 0),
      obj = (obj boot)(0x500 := \<lparr>bitmap = 0x64000, nFreeFrames = 10, base_frame_no = 100,
                                 nframes = 10, info_frame_no = 0, next_pool = 0, prev_pool = 0\<rparr>),
      head = 0, tail = 0,
      console = [Puts (''Frame Pool initialized'' @ NL), Puts ''First Frame Freed: '',
                 Puti 100, Puts NL, Puts ''Last Frame Freed: '', Puti 100, Puts NL,
                 Puts (''Entire frame pool is now free, removing from list.'' @ NL)]\<rparr>"

text \<open>The parts of a state that the pool at \<open>this\<close> with its first twelve frames consists of.\<close>

definition pool_view ::
  "kernel \<Rightarrow> ptr \<Rightarrow> ContFramePool \<times> byte list \<times> ptr \<times> ptr \<times> out list" where
  "pool_view k this =
     (obj k this, map (\<lambda>i. mem k (bitmap (obj k this) + i)) [0, 1, 2], head k, tail k, console k)"

text \<open>The number of frames of the pool at \<open>this\<close> whose state is \<open>Free\<close>.\<close>

definition free_frames :: "kernel \<Rightarrow> ptr \<Rightarrow> nat" where
  "free_frames k this =
     length (filter (\<lambda>i. frame_state k this (of_nat i) = Free)
               [0..<unat (nframes (obj k this))])"

text \<open>
  The construction of the ten-frame pool with its bitmap in frame 105, a frame of the
  pool other than the base frame.
\<close>

definition pool10_info105 :: kernel where
  "pool10_info105 = constructed (ContFramePool_ctor 4096 0x500 100 10 105 boot)"

text \<open>
  A pool of four frames from frame 100 on in which frames 100 and 102 are heads of
  sequences and frames 101 and 103 are free, as after two allocations of one frame each
  and the release of the first.
\<close>

definition fragmented :: kernel where
  "fragmented = \<lparr>mem = (\<lambda>_. 0)(0x64000 := 0x22),
      obj = (obj boot)(0x500 := \<lparr>bitmap = 0x64000, nFreeFrames = 2, base_frame_no = 100,
                                 nframes = 4, info_frame_no = 0, next_pool = 0, prev_pool = 0\<rparr>),
      head = 0x500, tail = 0x500, console = []\<rparr>"

text \<open>
  The pool of ten frames from frame 100 on with the run of three frames from frame 102
  allocated and frame 101 free again, as after an allocation of one frame, an allocation
  of three frames and the release of the first: six frames are free.
\<close>

definition two_runs :: kernel where
  "two_runs = \<lparr>mem = (\<lambda>_. 0)(0x64000 := 0x62, 0x64001 := 0x01),
      obj = (obj boot)(0x500 := \<lparr>bitmap = 0x64000, nFreeFrames = 6, base_frame_no = 100,
                                 nframes = 10, info_frame_no = 0, next_pool = 0, prev_pool = 0\<rparr>),
      head = 0x500, tail = 0x500, console = []\<rparr>"

section \<open>Facts about counters\<close>

text \<open>A counter below another value of its type does not wrap when it is incremented.\<close>

lemma unat_plus_one:
  fixes i j :: ulong
  assumes "i < j"
  shows "unat (i + 1) = unat i + 1"
proof -
  have "unat i < unat j"
    using assms by (simp add: word_less_nat_alt)
  moreover have "unat j < 2 ^ 32"
    using unsigned_less [of j, where 'a = nat] by simp
  ultimately show ?thesis
    by (simp add: unat_word_ariths)
qed

section \<open>Facts about the state codec\<close>
lemma unat_framePos: "unat (((f::ulong) mod 4) * 2) = 2 * (unat f mod 4)"
  by (simp add: unat_word_ariths unat_mod) 

lemma bit_3_iff: "bit (3::int) n \<longleftrightarrow> n < 2"
proof -
  have a: "bit (mask 2 :: int) n = (n < 2)" by (auto simp: bit_mask_iff)
  have b: "(mask 2 :: int) = 3" by (simp add: mask_eq_exp_minus_1)
  show ?thesis using a unfolding b .
qed

lemma field_get_put_same:
  assumes "p \<le> 6" "v AND 3 = v"
  shows "field_get p (field_put p v b) = v"
proof -
  have "drop_bit p ((b AND NOT (push_bit p 3)) OR push_bit p v) AND 3 = v AND 3"
    using assms(1) by (intro bit_word_eqI) (auto simp: bit_simps bit_3_iff dest: bit_imp_le_length)
  then show ?thesis using assms(2) by (simp only: field_get_def field_put_def)
qed

lemma field_get_put_other:
  assumes "i \<noteq> j" "v AND 3 = v"
  shows "field_get (2 * j) (field_put (2 * i) v b) = field_get (2 * j) b"
proof -
  have "drop_bit (2 * j) ((b AND NOT (push_bit (2 * i) 3)) OR push_bit (2 * i) (v AND 3)) AND 3
         = drop_bit (2 * j) b AND 3"
    using assms(1) by (intro bit_word_eqI) (auto simp: bit_simps bit_3_iff dest: bit_imp_le_length)
  then show ?thesis using assms(2) by (simp only: field_get_def field_put_def)
qed

lemma bits_le_3: "(x::byte) AND 3 = 0 \<or> x AND 3 = 1 \<or> x AND 3 = 2 \<or> x AND 3 = 3"
proof -
  have "x AND 3 \<le> 3" by (rule word_and_le1)
  then have "unat (x AND 3) \<le> 3" by (simp add: word_le_nat_alt)
  then have "unat (x AND 3) = 0 \<or> unat (x AND 3) = 1 \<or> unat (x AND 3) = 2 \<or> unat (x AND 3) = 3"
    by arith
  moreover have "x AND 3 = of_nat (unat (x AND 3))"
    by simp
  ultimately show ?thesis
    by (elim disjE) simp_all
qed

lemma encoding_and_3: "encoding s AND 3 = encoding s"
  by (cases s) simp_all

lemma frame_state_bits: "frame_state k this f = s \<longleftrightarrow> frame_bits k this f = encoding s"
  using bits_le_3 [of "drop_bit (2 * (unat f mod 4)) (mem k (bitmap (obj k this) + f div 4))"]
  by (cases s) (auto simp: frame_state_def frame_bits_def field_get_def get_state_def Let_def unat_framePos)

lemma set_state_fields [simp]:
  "obj (set_state this f s k) = obj k"
  "head (set_state this f s k) = head k"
  "tail (set_state this f s k) = tail k"
  "console (set_state this f s k) = console k"
  by (cases s; simp add: set_state_def Let_def)+

lemma get_state_fields [simp]:
  "mem (snd (get_state this f k)) = mem k"
  "obj (snd (get_state this f k)) = obj k"
  "head (snd (get_state this f k)) = head k"
  "tail (snd (get_state this f k)) = tail k"
  by (simp_all add: get_state_def Let_def)

lemma snd_get_state:
  "snd (get_state this f k) =
     (if frame_state k this f = Error
      then puts (''ERROR: Invalid frame state detected!'' @ NL) k else k)"
  by (simp add: frame_state_def get_state_def Let_def puts_def)

lemma mem_set_state:
  "mem (set_state this f s k) =
     (if s = Error then mem k
      else (mem k)(bitmap (obj k this) + f div 4 :=
             field_put (2 * (unat f mod 4)) (encoding s) (mem k (bitmap (obj k this) + f div 4))))"
  by (cases s) (simp_all add: set_state_def Let_def unat_framePos field_put_def)

lemma frame_bits_set_same:
  assumes "s \<noteq> Error"
  shows "frame_bits (set_state this f s k) this f = encoding s"
proof -
  have p: "2 * (unat f mod 4) \<le> 6" by arith
  show ?thesis
    using assms by (simp add: frame_bits_def mem_set_state field_get_put_same [OF p] encoding_and_3)
qed

lemma div_mod_4_eq:
  fixes f g :: ulong
  assumes "f div 4 = g div 4" "unat f mod 4 = unat g mod 4"
  shows "f = g"
proof -
  have "unat (f div 4) = unat f div 4" "unat (g div 4) = unat g div 4"
    by (simp_all add: unat_div)
  then have "unat f div 4 = unat g div 4"
    using assms(1) by simp
  then have "unat f = unat g"
    using assms(2) by (metis div_mult_mod_eq)
  then show ?thesis by (simp add: word_unat_eq_iff)
qed

lemma frame_bits_set_other:
  assumes "g \<noteq> f"
  shows "frame_bits (set_state this f s k) this g = frame_bits k this g"
proof (cases "g div 4 = f div 4")
  case True
  then have ne: "unat f mod 4 \<noteq> unat g mod 4"
    using assms div_mod_4_eq by metis
  show ?thesis
    using True by (simp add: frame_bits_def mem_set_state field_get_put_other [OF ne] encoding_and_3)
next
  case False
  then show ?thesis
    by (simp add: frame_bits_def mem_set_state)
qed

lemma frame_state_set_same:
  "s \<noteq> Error \<Longrightarrow> frame_state (set_state this f s k) this f = s"
  by (simp add: frame_state_bits frame_bits_set_same)

lemma frame_state_set_other:
  "g \<noteq> f \<Longrightarrow> frame_state (set_state this f s k) this g = frame_state k this g"
  using frame_state_bits [of "set_state this f s k" this g "frame_state k this g"]
  by (simp add: frame_bits_set_other frame_state_bits [symmetric])

lemma bit_field_put:
  assumes "n < p \<or> p + 2 \<le> n" "v AND 3 = v"
  shows "bit (field_put p v b) n = bit b n"
proof -
  have "bit ((b AND NOT (push_bit p 3)) OR push_bit p (v AND 3)) n = bit b n"
    using assms(1) by (auto simp: bit_simps bit_3_iff dest: bit_imp_le_length)
  then show ?thesis using assms(2) by (simp only: field_put_def)
qed

lemma set_state_mem_bits:
  assumes "a \<noteq> bitmap (obj k this) + f div 4 \<or> n < 2 * (unat f mod 4) \<or> 2 * (unat f mod 4) + 2 \<le> n"
  shows "bit (mem (set_state this f s k) a) n = bit (mem k a) n"
  using assms by (auto simp: mem_set_state bit_field_put encoding_and_3)

section \<open>Facts about the sizing function\<close>

lemma ceil_min:
  fixes a b :: nat
  assumes "0 < b"
  shows "a \<le> ((a + b - 1) div b) * b" and "a \<le> j * b \<Longrightarrow> (a + b - 1) div b \<le> j"
proof -
  have "a + b - 1 = ((a + b - 1) div b) * b + (a + b - 1) mod b"
    by simp
  moreover have "(a + b - 1) mod b \<le> b - 1"
    using mod_less_divisor [OF assms, of "a + b - 1"] by linarith
  ultimately show "a \<le> ((a + b - 1) div b) * b"
    using assms by linarith
next
  assume "a \<le> j * b"
  then have "a + b - 1 < (j + 1) * b"
    using assms by (simp add: algebra_simps)
  then have "(a + b - 1) div b < j + 1"
    using assms by (simp add: less_mult_imp_div_less)
  then show "(a + b - 1) div b \<le> j" by simp
qed

lemma ceil_nat_div:
  fixes a b :: nat
  assumes "0 < b"
  shows "\<lceil>real a / real b\<rceil> = int ((a + b - 1) div b)"
proof (rule ceiling_unique)
  let ?q = "(a + b - 1) div b"
  have "a \<le> ?q * b" using assms by (rule ceil_min(1))
  then have "real a \<le> real ?q * real b"
    by (metis of_nat_le_iff of_nat_mult)
  then show "real a / real b \<le> of_int (int ?q)"
    using assms by (simp add: divide_le_eq)
  show "of_int (int ?q) - 1 < real a / real b"
  proof (cases "?q = 0")
    case True
    have "0 \<le> real a / real b" by simp
    then have "- 1 < real a / real b" by linarith
    then show ?thesis using True by simp
  next
    case False
    then have "\<not> a \<le> (?q - 1) * b"
      using ceil_min(2) [OF assms, of a "?q - 1"] by auto
    then have "(?q - 1) * b < a" by simp
    then have "real (?q - 1) * real b < real a"
      by (metis of_nat_less_iff of_nat_mult)
    moreover have "real (?q - 1) = real ?q - 1"
      using False by (simp add: of_nat_diff)
    ultimately show ?thesis
      using assms by (simp add: less_divide_eq)
  qed
qed

lemma needed_info_frames_unat:
  assumes "FRAME_SIZE \<noteq> 0" "unat FRAME_SIZE * 8 < 2 ^ 32"
    and "unat n * 2 + unat FRAME_SIZE * 8 - 1 < 2 ^ 32"
  shows "unat (of_nat ((unat n * 2 + unat FRAME_SIZE * 8 - 1) div (unat FRAME_SIZE * 8)) :: ulong)
           = (unat n * 2 + unat FRAME_SIZE * 8 - 1) div (unat FRAME_SIZE * 8)"
    and "needed_info_frames FRAME_SIZE n =
           Inr (of_nat ((unat n * 2 + unat FRAME_SIZE * 8 - 1) div (unat FRAME_SIZE * 8)))"
proof -
  let ?B = "unat FRAME_SIZE * 8"
  let ?X = "unat n * 2 + ?B - 1"
  have pos: "0 < unat FRAME_SIZE"
    using assms(1) by (simp add: unat_gt_0)
  have B: "unat (FRAME_SIZE * 8) = ?B"
    using assms(2) by (simp add: unat_word_ariths)
  then have nz: "FRAME_SIZE * 8 \<noteq> 0"
    using pos by (metis mult_pos_pos not_gr_zero unat_eq_0 zero_less_numeral neq0_conv)
  have "n * 2 + FRAME_SIZE * 8 - 1 = (of_nat (unat n * 2 + ?B) :: ulong) - 1"
    by simp
  also have "\<dots> = of_nat ?X"
    using pos by (simp add: of_nat_diff)
  finally have X: "n * 2 + FRAME_SIZE * 8 - 1 = (of_nat ?X :: ulong)" .
  have uX: "unat (of_nat ?X :: ulong) = ?X"
    using assms(3) by (simp add: unat_of_nat)
  have "?X div ?B \<le> ?X" by (rule div_le_dividend)
  then have "?X div ?B < 2 ^ 32" using assms(3) by linarith
  then show q: "unat (of_nat (?X div ?B) :: ulong) = ?X div ?B"
    by (simp add: unat_of_nat)
  have "unat ((n * 2 + FRAME_SIZE * 8 - 1) div (FRAME_SIZE * 8)) = ?X div ?B"
    by (simp only: X unat_div uX B)
  then have "(n * 2 + FRAME_SIZE * 8 - 1) div (FRAME_SIZE * 8) = of_nat (?X div ?B)"
    using q by (simp only: word_unat_eq_iff)
  then show "needed_info_frames FRAME_SIZE n = Inr (of_nat (?X div ?B))"
    using nz by (simp add: needed_info_frames_def Let_def)
qed

section \<open>Facts about the parts of the state an operation keeps\<close>

lemma puts_fields [simp]:
  "mem (puts s k) = mem k" "obj (puts s k) = obj k" "head (puts s k) = head k"
  "tail (puts s k) = tail k" "console (puts s k) = console k @ [Puts s]"
  by (simp_all add: puts_def)

lemma puti_fields [simp]:
  "mem (puti n k) = mem k" "obj (puti n k) = obj k" "head (puti n k) = head k"
  "tail (puti n k) = tail k" "console (puti n k) = console k @ [Puti n]"
  by (simp_all add: puti_def)

lemma upd_obj_fields [simp]:
  "mem (upd_obj p g k) = mem k" "obj (upd_obj p g k) = (obj k)(p := g (obj k p))"
  "head (upd_obj p g k) = head k" "tail (upd_obj p g k) = tail k"
  "console (upd_obj p g k) = console k"
  by (simp_all add: upd_obj_def)

lemma frame_state_cong:
  assumes "mem k' = mem k" "bitmap (obj k' this) = bitmap (obj k this)"
  shows "frame_state k' this f = frame_state k this f"
  using assms by (simp add: frame_state_def get_state_def Let_def)

lemma frame_state_simps [simp]:
  "frame_state (puts s k) this f = frame_state k this f"
  "frame_state (puti n k) this f = frame_state k this f"
  "frame_state (snd (get_state that g k)) this f = frame_state k this f"
  "frame_state (upd_obj p (\<lambda>q. q\<lparr>nFreeFrames := c q\<rparr>) k) this f = frame_state k this f"
  by (rule frame_state_cong; simp)+

lemma links_simps [simp]:
  "links (puts s k) = links k"
  "links (puti n k) = links k"
  "links (snd (get_state that g k)) = links k"
  "links (set_state that g st k) = links k"
  "links (upd_obj p (\<lambda>q. q\<lparr>nFreeFrames := c q\<rparr>) k) = links k"
  by (auto simp: links_def fun_eq_iff)

lemma links_eqD:
  assumes "links k' = links k"
  shows "head k' = head k" "tail k' = tail k"
    "bitmap (obj k' p) = bitmap (obj k p)"
    "base_frame_no (obj k' p) = base_frame_no (obj k p)"
    "nframes (obj k' p) = nframes (obj k p)"
    "info_frame_no (obj k' p) = info_frame_no (obj k p)"
    "next_pool (obj k' p) = next_pool (obj k p)"
    "prev_pool (obj k' p) = prev_pool (obj k p)"
proof -
  have h: "head k' = head k" "tail k' = tail k"
    and o: "(obj k' p)\<lparr>nFreeFrames := 0\<rparr> = (obj k p)\<lparr>nFreeFrames := 0\<rparr>"
    using assms by (auto simp: links_def dest: fun_cong)
  show "head k' = head k" "tail k' = tail k" by (rule h)+
  show "bitmap (obj k' p) = bitmap (obj k p)"
    using arg_cong [OF o, of bitmap] by simp
  show "base_frame_no (obj k' p) = base_frame_no (obj k p)"
    using arg_cong [OF o, of base_frame_no] by simp
  show "nframes (obj k' p) = nframes (obj k p)"
    using arg_cong [OF o, of nframes] by simp
  show "info_frame_no (obj k' p) = info_frame_no (obj k p)"
    using arg_cong [OF o, of info_frame_no] by simp
  show "next_pool (obj k' p) = next_pool (obj k p)"
    using arg_cong [OF o, of next_pool] by simp
  show "prev_pool (obj k' p) = prev_pool (obj k p)"
    using arg_cong [OF o, of prev_pool] by simp
qed

lemma get_state_quiet:
  "frame_state k this f \<noteq> Error \<Longrightarrow> snd (get_state this f k) = k"
  by (simp add: snd_get_state)

lemma fst_get_state: "fst (get_state this f k) = frame_state k this f"
  by (simp add: frame_state_def)

lemma scan_loop_skip:
  assumes "\<forall>i. lo \<le> i \<and> i < h \<longrightarrow> frame_state k this (of_nat i) \<in> {Used, HoS}"
    and "frame_state k this (of_nat h) = Free" "lo \<le> h"
  shows "scan_loop this (of_nat lo) k = Some (of_nat h, k)"
  using assms
proof (induction "h - lo" arbitrary: lo)
  case 0
  then have "lo = h" by simp
  then show ?case
    using "0.prems"(2) by (subst scan_loop.simps) (simp add: fst_get_state snd_get_state Let_def)
next
  case (Suc d)
  then have lt: "lo < h" by simp
  then have st: "frame_state k this (of_nat lo) \<in> {Used, HoS}"
    using Suc.prems(1) by simp
  have "scan_loop this (of_nat (Suc lo)) k = Some (of_nat h, k)"
    using Suc.hyps(1) [of "Suc lo"] Suc.hyps(2) Suc.prems lt by simp
  then have "scan_loop this (of_nat lo + 1) k = Some (of_nat h, k)"
    by (simp add: add.commute)
  then show ?case
    using st by (subst scan_loop.simps) (auto simp: fst_get_state snd_get_state Let_def)
qed

section \<open>Facts about the allocation loop\<close>

lemma used_step_links [simp]: "links (used_step this f k) = links k"
  by (simp add: used_step_def Let_def)

lemma used_step_nFreeFrames:
  "nFreeFrames (obj (used_step this f k) p) =
     (if p = this then nFreeFrames (obj k p) - 1 else nFreeFrames (obj k p))"
  by (simp add: used_step_def Let_def)

lemma used_step_frame_state:
  "frame_state (used_step this f k) this g = (if g = f then Used else frame_state k this g)"
  by (simp add: used_step_def Let_def fst_get_state frame_state_set_same frame_state_set_other)

lemma used_loop_links [simp]: "links (used_loop this count i f k) = links k"
proof (induction this count i f k rule: used_loop.induct)
  case (1 this count i f k)
  then show ?case by (subst used_loop.simps) simp
qed

lemma used_loop_nFreeFrames:
  "i \<le> count \<Longrightarrow> nFreeFrames (obj (used_loop this count i f k) p) =
     (if p = this then nFreeFrames (obj k p) - (count - i) else nFreeFrames (obj k p))"
proof (induction this count i f k rule: used_loop.induct)
  case (1 this count i f k)
  show ?case
  proof (cases "i < count")
    case True
    then have "i + 1 \<le> count"
      by (simp add: inc_le)
    then show ?thesis
      using True "1.IH" by (subst used_loop.simps) (simp add: used_step_nFreeFrames)
  next
    case False
    then have "i = count" using "1.prems" by simp
    then show ?thesis by (subst used_loop.simps) simp
  qed
qed

lemma used_loop_frame_state:
  "i \<le> count \<Longrightarrow> frame_state (used_loop this count i f k) this g =
     (if \<exists>j < unat count - unat i. g = f + of_nat j then Used else frame_state k this g)"
proof (induction this count i f k rule: used_loop.induct)
  case (1 this count i f k)
  show ?case
  proof (cases "i < count")
    case True
    then have le: "i + 1 \<le> count"
      by (simp add: inc_le)
    have u: "unat (i + 1) = unat i + 1"
      using True by (rule unat_plus_one)
    have lt: "unat i < unat count"
      using True by (simp add: word_less_nat_alt)
    have ex: "(\<exists>j < unat count - unat i. g = f + of_nat j)
        \<longleftrightarrow> g = f \<or> (\<exists>j < unat count - unat (i + 1). g = f + 1 + of_nat j)"
    proof
      assume "\<exists>j < unat count - unat i. g = f + of_nat j"
      then obtain j where j: "j < unat count - unat i" "g = f + of_nat j" by blast
      show "g = f \<or> (\<exists>j < unat count - unat (i + 1). g = f + 1 + of_nat j)"
      proof (cases j)
        case 0
        then show ?thesis using j by simp
      next
        case (Suc j')
        then have "j' < unat count - unat (i + 1)" "g = f + 1 + of_nat j'"
          using j u by simp_all
        then show ?thesis by blast
      qed
    next
      assume "g = f \<or> (\<exists>j < unat count - unat (i + 1). g = f + 1 + of_nat j)"
      then show "\<exists>j < unat count - unat i. g = f + of_nat j"
      proof
        assume "g = f"
        then have "0 < unat count - unat i \<and> g = f + of_nat 0" using lt by simp
        then show ?thesis by blast
      next
        assume "\<exists>j < unat count - unat (i + 1). g = f + 1 + of_nat j"
        then obtain j where "j < unat count - unat (i + 1)" "g = f + 1 + of_nat j" by blast
        then have "Suc j < unat count - unat i \<and> g = f + of_nat (Suc j)"
          using u by simp
        then show ?thesis by blast
      qed
    qed
    have "frame_state (used_loop this count i f k) this g
        = frame_state (used_loop this count (i + 1) (f + 1) (used_step this f k)) this g"
      using True by (subst used_loop.simps) simp
    also have "\<dots> = (if \<exists>j < unat count - unat (i + 1). g = f + 1 + of_nat j then Used
                      else frame_state (used_step this f k) this g)"
      using "1.IH" [OF True le] .
    also have "\<dots> = (if \<exists>j < unat count - unat i. g = f + of_nat j then Used
                      else frame_state k this g)"
    proof (cases "g = f")
      case True
      then have "\<exists>j < unat count - unat i. g = f + of_nat j" using ex by blast
      then have R: "(if \<exists>j < unat count - unat i. g = f + of_nat j then Used
                      else frame_state k this g) = Used" by simp
      have L: "(if \<exists>j < unat count - unat (i + 1). g = f + 1 + of_nat j then Used
                      else frame_state (used_step this f k) this g) = Used"
        using True by (simp add: used_step_frame_state)
      show ?thesis by (simp only: L R)
    next
      case False
      then have "(\<exists>j < unat count - unat i. g = f + of_nat j)
        \<longleftrightarrow> (\<exists>j < unat count - unat (i + 1). g = f + 1 + of_nat j)" using ex by blast
      then show ?thesis using False by (simp only: used_step_frame_state if_False)
    qed
    finally show ?thesis .
  next
    case False
    then have "i = count" using "1.prems" by simp
    then show ?thesis by (subst used_loop.simps) simp
  qed
qed

section \<open>Facts about the release loop\<close>

lemma of_nat_ne_0:
  assumes "0 < j" "j < 2 ^ 32"
  shows "(of_nat j :: ulong) \<noteq> 0"
proof
  assume "(of_nat j :: ulong) = 0"
  then have "unat (of_nat j :: ulong) = 0" by simp
  then have "j mod 2 ^ 32 = 0" by (simp add: unat_of_nat)
  then show False using assms by simp
qed

lemma add_of_nat_ne:
  fixes f :: ulong
  assumes "0 < j" "j < 2 ^ 32"
  shows "f + of_nat j \<noteq> f"
  using of_nat_ne_0 [OF assms] by simp

lemma unat_lt_2p32: "unat (x :: ulong) < 2 ^ 32"
  using unsigned_less [of x, where 'a = nat] by simp

lemma free_run_links [simp]: "links (snd (free_run temp frame k)) = links k"
proof (induction temp frame k rule: free_run.induct)
  case (1 temp frame k)
  then show ?case by (subst free_run.simps) simp
qed

lemma free_run_run:
  assumes "\<forall>j<m. frame_state k temp (frame + of_nat j) = Used"
    and "unat frame + m \<le> unat (nframes (obj k temp))"
    and "unat frame + m = unat (nframes (obj k temp))
         \<or> frame_state k temp (frame + of_nat m) \<noteq> Used"
  shows "fst (free_run temp frame k) = frame + of_nat m
    \<and> (\<forall>p. nFreeFrames (obj (snd (free_run temp frame k)) p) =
          (if p = temp then nFreeFrames (obj k p) + of_nat m else nFreeFrames (obj k p)))
    \<and> (\<forall>g. frame_state (snd (free_run temp frame k)) temp g =
          (if \<exists>j<m. g = frame + of_nat j then Free else frame_state k temp g))"
  using assms
proof (induction m arbitrary: frame k)
  case 0
  have "\<not> (frame < nframes (obj k temp) \<and> fst (get_state temp frame k) = Used)"
    using "0.prems"(2,3) by (auto simp: fst_get_state word_less_nat_alt)
  then show ?case
    by (subst (1 2 3) free_run.simps) simp
next
  case (Suc m)
  let ?k' = "upd_obj temp (\<lambda>p. p\<lparr>nFreeFrames := nFreeFrames p + 1\<rparr>)
               (set_state temp frame Free (snd (get_state temp frame k)))"
  have bound: "unat frame + Suc m < 2 ^ 32"
    using Suc.prems(2) unat_lt_2p32 [of "nframes (obj k temp)"] by linarith
  have lt: "frame < nframes (obj k temp)"
    using Suc.prems(2) by (simp add: word_less_nat_alt)
  have u: "unat (frame + 1) = unat frame + 1"
    using lt by (rule unat_plus_one)
  have used: "frame_state k temp frame = Used"
    using Suc.prems(1) [rule_format, of 0] by simp
  have step: "free_run temp frame k = free_run temp (frame + 1) ?k'"
    using lt used by (subst free_run.simps) (simp add: fst_get_state)
  have nfr: "nframes (obj ?k' temp) = nframes (obj k temp)"
    by simp
  have ne: "frame + 1 + of_nat j \<noteq> frame" if "j \<le> m" for j
  proof -
    have "frame + of_nat (Suc j) \<noteq> frame"
      using that bound by (intro add_of_nat_ne) simp_all
    then show ?thesis by (simp add: add.assoc)
  qed
  have fs': "frame_state ?k' temp g = frame_state k temp g" if "g \<noteq> frame" for g
    using that by (simp add: frame_state_set_other)
  have p1: "\<forall>j<m. frame_state ?k' temp (frame + 1 + of_nat j) = Used"
  proof (intro allI impI)
    fix j assume j: "j < m"
    have a: "frame_state k temp (frame + 1 + of_nat j) = Used"
      using Suc.prems(1) [rule_format, of "Suc j"] j by (simp add: add.assoc)
    have b: "frame_state ?k' temp (frame + 1 + of_nat j) = frame_state k temp (frame + 1 + of_nat j)"
      using j by (intro fs' ne) simp
    show "frame_state ?k' temp (frame + 1 + of_nat j) = Used"
      by (simp only: a b)
  qed
  have p2: "unat (frame + 1) + m \<le> unat (nframes (obj ?k' temp))"
    using Suc.prems(2) u by (simp add: nfr)
  have p3: "unat (frame + 1) + m = unat (nframes (obj ?k' temp))
         \<or> frame_state ?k' temp (frame + 1 + of_nat m) \<noteq> Used"
  proof -
    have a: "unat frame + Suc m = unat (nframes (obj k temp))
         \<or> frame_state k temp (frame + 1 + of_nat m) \<noteq> Used"
      using Suc.prems(3) by (simp add: add.assoc)
    have b: "frame_state ?k' temp (frame + 1 + of_nat m) = frame_state k temp (frame + 1 + of_nat m)"
      by (intro fs' ne) simp
    have c: "unat (frame + 1) + m = unat frame + Suc m"
      using u by simp
    show ?thesis
      using a by (simp only: b c nfr)
  qed
  note IH = Suc.IH [OF p1 p2 p3]
  have ex: "(\<exists>j<Suc m. g = frame + of_nat j)
      \<longleftrightarrow> g = frame \<or> (\<exists>j<m. g = frame + 1 + of_nat j)" for g
  proof
    assume "\<exists>j<Suc m. g = frame + of_nat j"
    then obtain j where j: "j < Suc m" "g = frame + of_nat j" by blast
    show "g = frame \<or> (\<exists>j<m. g = frame + 1 + of_nat j)"
    proof (cases j)
      case 0
      then show ?thesis using j by simp
    next
      case (Suc j')
      then have "j' < m" "g = frame + 1 + of_nat j'"
        using j by simp_all
      then show ?thesis by blast
    qed
  next
    assume "g = frame \<or> (\<exists>j<m. g = frame + 1 + of_nat j)"
    then show "\<exists>j<Suc m. g = frame + of_nat j"
    proof
      assume "g = frame"
      then have "0 < Suc m \<and> g = frame + of_nat 0" by simp
      then show ?thesis by blast
    next
      assume "\<exists>j<m. g = frame + 1 + of_nat j"
      then obtain j where "j < m" "g = frame + 1 + of_nat j" by blast
      then have "Suc j < Suc m \<and> g = frame + of_nat (Suc j)"
        by simp
      then show ?thesis by blast
    qed
  qed
  show ?case
  proof (intro conjI allI)
    show "fst (free_run temp frame k) = frame + of_nat (Suc m)"
      using IH by (simp add: step add.assoc)
  next
    fix p
    show "nFreeFrames (obj (snd (free_run temp frame k)) p) =
          (if p = temp then nFreeFrames (obj k p) + of_nat (Suc m) else nFreeFrames (obj k p))"
      using IH by (simp add: step add.assoc)
  next
    fix g
    have "frame_state (snd (free_run temp frame k)) temp g =
        (if \<exists>j<m. g = frame + 1 + of_nat j then Free else frame_state ?k' temp g)"
      using IH by (simp add: step)
    also have "\<dots> = (if \<exists>j<Suc m. g = frame + of_nat j then Free else frame_state k temp g)"
    proof (cases "g = frame")
      case True
      then have "\<exists>j<Suc m. g = frame + of_nat j" using ex by blast
      then have R: "(if \<exists>j<Suc m. g = frame + of_nat j then Free
                     else frame_state k temp g) = Free" by simp
      have L: "(if \<exists>j<m. g = frame + 1 + of_nat j then Free
                else frame_state ?k' temp g) = Free"
        using True by (simp add: frame_state_set_same)
      show ?thesis by (simp only: L R)
    next
      case False
      then have e: "(\<exists>j<Suc m. g = frame + of_nat j) \<longleftrightarrow> (\<exists>j<m. g = frame + 1 + of_nat j)"
        using ex by blast
      have "frame_state ?k' temp g = frame_state k temp g"
        using False by (rule fs')
      then show ?thesis by (simp only: e)
    qed
    finally show "frame_state (snd (free_run temp frame k)) temp g =
          (if \<exists>j<Suc m. g = frame + of_nat j then Free else frame_state k temp g)" .
  qed
qed

section \<open>Facts about allocation\<close>

lemma scan_loop_first:
  assumes "\<forall>i. i < h \<longrightarrow> frame_state k this i = Used \<or> frame_state k this i = HoS"
    and "frame_state k this h = Free"
  shows "scan_loop this 0 k = Some (h, k)"
proof -
  have "\<forall>i. 0 \<le> i \<and> i < unat h \<longrightarrow> frame_state k this (of_nat i) \<in> {Used, HoS}"
  proof (intro allI impI)
    fix i assume i: "0 \<le> i \<and> i < unat h"
    then have "i < 2 ^ 32" using unat_lt_2p32 [of h] by linarith
    then have "unat (of_nat i :: ulong) = i" by (simp add: unat_of_nat)
    then have "(of_nat i :: ulong) < h" using i by (simp add: word_less_nat_alt)
    then show "frame_state k this (of_nat i) \<in> {Used, HoS}"
      using assms(1) by auto
  qed
  moreover have "frame_state k this (of_nat (unat h)) = Free"
    using assms(2) by simp
  ultimately have "scan_loop this (of_nat 0) k = Some (of_nat (unat h), k)"
    by (intro scan_loop_skip) simp_all
  then show ?thesis by simp
qed

lemma obj_nFreeFrames_eqI:
  assumes "links k' = links k" "nFreeFrames (obj k' p) = c"
  shows "obj k' p = (obj k p)\<lparr>nFreeFrames := c\<rparr>"
  using links_eqD [OF assms(1)] assms(2) by (intro ContFramePool.equality) simp_all

lemma get_frames_marks:
  assumes free: "nFreeFrames (obj k this) > 0" and n: "n \<noteq> 0"
    and below: "\<forall>i. i < h \<longrightarrow> frame_state k this i = Used \<or> frame_state k this i = HoS"
    and first: "frame_state k this h = Free"
  defines "k' \<equiv> used_loop this (n - 1) 0 (h + 1)
                 (upd_obj this (\<lambda>p. p\<lparr>nFreeFrames := nFreeFrames p - 1\<rparr>)
                   (set_state this h HoS k))"
  shows "get_frames this n k = Some (Inr (h + base_frame_no (obj k this), k'))"
    and "frame_state k' this h = HoS"
    and "\<And>j. 0 < j \<Longrightarrow> j < unat n \<Longrightarrow> frame_state k' this (h + of_nat j) = Used"
    and "\<And>g. \<forall>j<unat n. g \<noteq> h + of_nat j \<Longrightarrow> frame_state k' this g = frame_state k this g"
    and "nFreeFrames (obj k' this) = nFreeFrames (obj k this) - n"
    and "links k' = links k"
    and "\<And>p. p \<noteq> this \<Longrightarrow> obj k' p = obj k p"
proof -
  let ?k3 = "upd_obj this (\<lambda>p. p\<lparr>nFreeFrames := nFreeFrames p - 1\<rparr>) (set_state this h HoS k)"
  have un: "unat (n - 1) = unat n - 1"
    using n by (simp add: unat_minus_one)
  show l: "links k' = links k"
    by (simp add: k'_def)
  have scan: "scan_loop this 0 k = Some (h, k)"
    using below first by (rule scan_loop_first)
  show "get_frames this n k = Some (Inr (h + base_frame_no (obj k this), k'))"
    using free scan links_eqD(4) [OF l] by (simp add: get_frames_def Let_def k'_def)
  have fs: "frame_state k' this g =
      (if \<exists>j < unat n - 1. g = h + 1 + of_nat j then Used else frame_state ?k3 this g)" for g
    using used_loop_frame_state [of 0 "n - 1" this "h + 1" ?k3 g] by (simp add: k'_def un)
  have ne: "h + 1 + of_nat j \<noteq> h" if "j < unat n - 1" for j
  proof -
    have "Suc j < 2 ^ 32" using that unat_lt_2p32 [of n] by linarith
    then have "h + of_nat (Suc j) \<noteq> h" by (intro add_of_nat_ne) simp_all
    then show ?thesis by (simp add: add.assoc)
  qed
  have "\<not> (\<exists>j < unat n - 1. h = h + 1 + of_nat j)"
    using ne by metis
  then show "frame_state k' this h = HoS"
    by (simp add: fs frame_state_set_same)
  show "frame_state k' this (h + of_nat j) = Used" if "0 < j" "j < unat n" for j
  proof -
    have "j - 1 < unat n - 1 \<and> h + of_nat j = h + 1 + of_nat (j - 1)"
      using that by (cases j) simp_all
    then have "\<exists>i < unat n - 1. h + of_nat j = h + 1 + of_nat i" by blast
    then show ?thesis by (simp only: fs if_True)
  qed
  show "frame_state k' this g = frame_state k this g" if g: "\<forall>j<unat n. g \<noteq> h + of_nat j" for g
  proof -
    have "unat n \<noteq> 0" using n by (simp add: unat_eq_0)
    then have gh: "g \<noteq> h" using g [rule_format, of 0] by simp
    have "\<not> (\<exists>j < unat n - 1. g = h + 1 + of_nat j)"
    proof
      assume "\<exists>j < unat n - 1. g = h + 1 + of_nat j"
      then obtain j where "j < unat n - 1" "g = h + 1 + of_nat j" by blast
      then have "Suc j < unat n" "g = h + of_nat (Suc j)" by simp_all
      then show False using g by blast
    qed
    then have "frame_state k' this g = frame_state ?k3 this g"
      by (simp only: fs if_False)
    then show ?thesis using gh by (simp add: frame_state_set_other)
  qed
  show "nFreeFrames (obj k' this) = nFreeFrames (obj k this) - n"
    using used_loop_nFreeFrames [of 0 "n - 1" this "h + 1" ?k3 this] by (simp add: k'_def)
  show "obj k' p = obj k p" if "p \<noteq> this" for p
  proof -
    have "nFreeFrames (obj k' p) = nFreeFrames (obj k p)"
      using used_loop_nFreeFrames [of 0 "n - 1" this "h + 1" ?k3 p] that by (simp add: k'_def)
    then show ?thesis
      using obj_nFreeFrames_eqI [OF l, of p "nFreeFrames (obj k p)"] by simp
  qed
qed

section \<open>Facts about the registry\<close>

lemma path_append: "path nx p (xs @ ys) q \<longleftrightarrow> (\<exists>r. path nx p xs r \<and> path nx r ys q)"
  by (induction xs arbitrary: p) auto

lemma path_upd_other: "u \<notin> set xs \<Longrightarrow> path (nx(u := v)) p xs q = path nx p xs q"
  by (induction xs arbitrary: p) auto

lemma path_nonzero: "path nx p xs q \<Longrightarrow> 0 \<notin> set xs"
  by (induction xs arbitrary: p) auto

lemma prevs_append: "prevs pv q (xs @ ys) \<longleftrightarrow> prevs pv q xs \<and> prevs pv (last (q # xs)) ys"
  by (induction xs arbitrary: q) auto

lemma prevs_upd_other: "u \<notin> set xs \<Longrightarrow> prevs (pv(u := v)) q xs = prevs pv q xs"
  by (induction xs arbitrary: q) auto

lemma owner_in_set: "owner ob f ps = Some t \<Longrightarrow> t \<in> set ps \<and> in_range (ob t) f"
  by (induction ps) (auto split: if_splits)

lemma owner_None: "owner ob f ps = None \<longleftrightarrow> (\<forall>x \<in> set ps. \<not> in_range (ob x) f)"
  by (induction ps) auto

lemma release_loop_path:
  assumes "path (\<lambda>p. next_pool (obj k p)) p ps 0"
  shows "release_loop f p k =
     Some (case owner (obj k) f ps of None \<Rightarrow> k | Some t \<Rightarrow> release_found f t k)"
  using assms
proof (induction ps arbitrary: p)
  case Nil
  then show ?case by (subst release_loop.simps) simp
next
  case (Cons x xs)
  then have p: "p = x" "x \<noteq> 0" and rest: "path (\<lambda>p. next_pool (obj k p)) (next_pool (obj k x)) xs 0"
    by simp_all
  show ?case
  proof (cases "in_range (obj k x) f")
    case True
    then show ?thesis
      using p by (subst release_loop.simps) (simp add: in_range_def)
  next
    case False
    then show ?thesis
      using p Cons.IH [OF rest] by (subst release_loop.simps) (auto simp: in_range_def)
  qed
qed

lemma release_frames_registry:
  assumes "path (\<lambda>p. next_pool (obj k p)) (head k) ps 0"
  shows "release_frames f k =
     Some (case owner (obj k) f ps of None \<Rightarrow> k | Some t \<Rightarrow> release_found f t k)"
  using release_loop_path [OF assms] by (simp add: release_frames_def)

lemma links_path:
  assumes "links k' = links k"
  shows "path (\<lambda>p. next_pool (obj k' p)) q ps r = path (\<lambda>p. next_pool (obj k p)) q ps r"
  by (simp add: links_eqD(7) [OF assms])

lemma links_owner:
  assumes "links k' = links k"
  shows "owner (obj k') f ps = owner (obj k) f ps"
  by (induction ps) (simp_all add: in_range_def links_eqD(4,5) [OF assms])

lemma links_registry:
  assumes "links k' = links k"
  shows "registry k' ps = registry k ps"
  by (simp add: registry_def links_eqD(1,2,7,8) [OF assms])

lemma release_found_not_head:
  assumes "frame_state k t (f - base_frame_no (obj k t)) \<noteq> HoS"
  shows "release_found f t k =
     puts ''release_frames(): first frame not a Head-Of-Sequence''
       (if frame_state k t (f - base_frame_no (obj k t)) = Error
        then puts (''ERROR: Invalid frame state detected!'' @ NL) k else k)"
  using assms by (simp add: release_found_def Let_def fst_get_state snd_get_state)

section \<open>Facts about taking a pool out of the registry\<close>

lemma unlink_fields:
  assumes "prev_pool (obj k t) \<noteq> t" "next_pool (obj k t) \<noteq> t"
  shows "(\<lambda>p. next_pool (obj (unlink t k) p)) =
           (if prev_pool (obj k t) \<noteq> 0
            then (\<lambda>p. next_pool (obj k p))(prev_pool (obj k t) := next_pool (obj k t))
            else (\<lambda>p. next_pool (obj k p)))"
    and "(\<lambda>p. prev_pool (obj (unlink t k) p)) =
           (if next_pool (obj k t) \<noteq> 0
            then (\<lambda>p. prev_pool (obj k p))(next_pool (obj k t) := prev_pool (obj k t))
            else (\<lambda>p. prev_pool (obj k p)))"
    and "head (unlink t k) = (if t = head k then next_pool (obj k t) else head k)"
    and "tail (unlink t k) = (if t = tail k then prev_pool (obj k t) else tail k)"
  using assms by (auto simp: unlink_def Let_def fun_eq_iff)

lemma unlink_keeps [simp]:
  "mem (unlink t k) = mem k"
  "console (unlink t k) = console k"
  "bitmap (obj (unlink t k) p) = bitmap (obj k p)"
  "nFreeFrames (obj (unlink t k) p) = nFreeFrames (obj k p)"
  "base_frame_no (obj (unlink t k) p) = base_frame_no (obj k p)"
  "nframes (obj (unlink t k) p) = nframes (obj k p)"
  "info_frame_no (obj (unlink t k) p) = info_frame_no (obj k p)"
  by (simp_all add: unlink_def Let_def)

lemma path_last:
  "path nx p (xs @ [u]) q \<longleftrightarrow> path nx p xs u \<and> u \<noteq> 0 \<and> nx u = q"
  by (auto simp: path_append)

lemma unlink_registry:
  assumes reg: "registry k ps" and t: "t \<in> set ps"
  shows "registry (unlink t k) (remove1 t ps)"
proof -
  let ?nx = "\<lambda>p. next_pool (obj k p)" and ?pv = "\<lambda>p. prev_pool (obj k p)"
  obtain xs ys where ps: "ps = xs @ t # ys" and txs: "t \<notin> set xs"
    using t by (meson split_list_first)
  have d: "distinct (xs @ t # ys)" and pa: "path ?nx (head k) (xs @ t # ys) 0"
    and pr: "prevs ?pv 0 (xs @ t # ys)" and tl: "tail k = last (0 # xs @ t # ys)"
    using reg by (simp_all add: registry_def ps)
  have tys: "t \<notin> set ys" and dxs: "distinct xs" and dys: "distinct ys"
    and disj: "set xs \<inter> set ys = {}"
    using d by auto
  have rm: "remove1 t ps = xs @ ys"
    using txs by (simp add: ps remove1_append)
  have nz: "0 \<notin> set (xs @ t # ys)"
    using pa by (rule path_nonzero)
  have pa1: "path ?nx (head k) xs t" and t0: "t \<noteq> 0" and pa2: "path ?nx (?nx t) ys 0"
    using pa by (auto simp: path_append)
  have pr1: "prevs ?pv 0 xs" and pt: "?pv t = last (0 # xs)" and pr2: "prevs ?pv t ys"
    using pr by (auto simp: prevs_append)
  have nt: "?nx t = (if ys = [] then 0 else hd ys)"
    using pa2 by (cases ys) auto
  have pt_ne: "?pv t \<noteq> t"
    using pt txs t0 by (cases xs rule: rev_cases) auto
  have nt_ne: "?nx t \<noteq> t"
    using nt tys t0 by (cases ys) auto
  note f = unlink_fields [OF pt_ne nt_ne]
  have hd_k: "head k = (if xs = [] then t else hd xs)"
    using pa1 by (cases xs) auto
  have path': "path (\<lambda>p. next_pool (obj (unlink t k) p)) (head (unlink t k)) (xs @ ys) 0"
  proof (cases xs rule: rev_cases)
    case Nil
    then show ?thesis
      using pa2 pt hd_k by (simp add: f)
  next
    case (snoc xs' u)
    have u: "u \<noteq> 0" "u \<noteq> t" "u \<notin> set xs'" "u \<notin> set ys"
      using nz txs dxs disj by (auto simp: snoc)
    have pu: "?pv t = u" using pt by (simp add: snoc)
    have a: "path ?nx (head k) xs' u"
      using pa1 by (simp add: snoc path_last)
    have hk: "head k \<noteq> t"
      using hd_k txs snoc by (cases xs') auto
    have "path (?nx(u := ?nx t)) (head k) (xs' @ [u] @ ys) 0"
      unfolding path_append
    proof (intro exI conjI)
      show "path (?nx(u := ?nx t)) (head k) xs' u"
        using a u(3) by (simp add: path_upd_other)
      show "path (?nx(u := ?nx t)) u [u] (?nx t)"
        using u(1) by simp
      show "path (?nx(u := ?nx t)) (?nx t) ys 0"
        using pa2 u(4) by (simp add: path_upd_other)
    qed
    then show ?thesis
      using u(1) hk by (simp add: f pu snoc)
  qed
  have prevs': "prevs (\<lambda>p. prev_pool (obj (unlink t k) p)) 0 (xs @ ys)"
  proof (cases ys)
    case Nil
    then show ?thesis
      using pr1 nt by (simp add: f)
  next
    case (Cons y ys')
    have y: "y \<noteq> 0" "y \<notin> set xs" "y \<notin> set ys'"
      using nz disj dys by (auto simp: Cons)
    have ny: "?nx t = y" using nt by (simp add: Cons)
    have b: "prevs ?pv y ys'"
      using pr2 by (simp add: Cons)
    have "prevs (?pv(y := ?pv t)) 0 (xs @ y # ys')"
      unfolding prevs_append
    proof (intro conjI)
      show "prevs (?pv(y := ?pv t)) 0 xs"
        using pr1 y(2) by (simp add: prevs_upd_other)
      show "prevs (?pv(y := ?pv t)) (last (0 # xs)) (y # ys')"
        using b y(3) pt by (simp add: prevs_upd_other)
    qed
    then show ?thesis
      using y(1) by (simp add: f ny Cons)
  qed
  have tail': "tail (unlink t k) = last (0 # xs @ ys)"
  proof (cases ys rule: rev_cases)
    case Nil
    then show ?thesis
      using tl pt by (simp add: f)
  next
    case (snoc ys' z)
    then have "tail k = z" "z \<noteq> t"
      using tl tys by auto
    then show ?thesis
      by (simp add: f snoc)
  qed
  show ?thesis
    using path' prevs' tail' dxs dys disj by (simp add: registry_def rm)
qed

section \<open>Facts about a release that finds a head of sequence\<close>

lemma release_found_head:
  assumes "frame_state k t (f - base_frame_no (obj k t)) = HoS"
  shows "release_found f t k =
     (if nFreeFrames (obj (release_run f t k) t) = nframes (obj (release_run f t k) t)
      then unlink t (puts (''Entire frame pool is now free, removing from list.'' @ NL)
                      (release_run f t k))
      else release_run f t k)"
  using assms by (simp add: release_found_def release_run_def Let_def fst_get_state)

lemma release_run_links [simp]: "links (release_run f t k) = links k"
  by (simp add: release_run_def Let_def)

lemma release_run_effect:
  assumes hos: "frame_state k t h = HoS" and h: "h = f - base_frame_no (obj k t)"
    and used: "\<forall>j<m. frame_state k t (h + 1 + of_nat j) = Used"
    and inside: "unat h + 1 + m \<le> unat (nframes (obj k t))"
    and stop: "unat h + 1 + m = unat (nframes (obj k t))
               \<or> frame_state k t (h + 1 + of_nat m) \<noteq> Used"
  shows "nFreeFrames (obj (release_run f t k) p) =
           (if p = t then nFreeFrames (obj k p) + 1 + of_nat m else nFreeFrames (obj k p))"
    and "frame_state (release_run f t k) t g =
           (if g = h \<or> (\<exists>j<m. g = h + 1 + of_nat j) then Free else frame_state k t g)"
proof -
  let ?k5 = "upd_obj t (\<lambda>p. p\<lparr>nFreeFrames := nFreeFrames p + 1\<rparr>)
     (set_state t h Free (puts NL (puti (h + base_frame_no (obj k t))
        (puts ''First Frame Freed: '' (snd (get_state t h k))))))"
  have bound: "unat h + 1 + m < 2 ^ 32"
    using inside unat_lt_2p32 [of "nframes (obj k t)"] by linarith
  have lt: "h < nframes (obj k t)"
    using inside by (simp add: word_less_nat_alt)
  have u: "unat (h + 1) = unat h + 1"
    using lt by (rule unat_plus_one)
  have ne: "h + 1 + of_nat j \<noteq> h" if "j \<le> m" for j
  proof -
    have "h + of_nat (Suc j) \<noteq> h"
      using that bound by (intro add_of_nat_ne) simp_all
    then show ?thesis by (simp add: add.assoc)
  qed
  have fs5: "frame_state ?k5 t g = frame_state k t g" if "g \<noteq> h" for g
    using that by (simp add: frame_state_set_other)
  have fs5h: "frame_state ?k5 t h = Free"
    by (simp add: frame_state_set_same)
  have nf5: "nframes (obj ?k5 t) = nframes (obj k t)"
    by simp
  have p1: "\<forall>j<m. frame_state ?k5 t (h + 1 + of_nat j) = Used"
  proof (intro allI impI)
    fix j assume j: "j < m"
    have "frame_state ?k5 t (h + 1 + of_nat j) = frame_state k t (h + 1 + of_nat j)"
      using j by (intro fs5 ne) simp
    then show "frame_state ?k5 t (h + 1 + of_nat j) = Used"
      using used j by simp
  qed
  have p2: "unat (h + 1) + m \<le> unat (nframes (obj ?k5 t))"
    using inside u by (simp only: nf5)
  have p3: "unat (h + 1) + m = unat (nframes (obj ?k5 t))
         \<or> frame_state ?k5 t (h + 1 + of_nat m) \<noteq> Used"
  proof -
    have "frame_state ?k5 t (h + 1 + of_nat m) = frame_state k t (h + 1 + of_nat m)"
      by (intro fs5 ne) simp
    then show ?thesis
      using stop u by (simp only: nf5)
  qed
  note r = free_run_run [OF p1 p2 p3]
  have rr: "release_run f t k =
      puts NL (puti (fst (free_run t (h + 1) ?k5) + base_frame_no (obj k t) - 1)
        (puts ''Last Frame Freed: '' (snd (free_run t (h + 1) ?k5))))"
    by (simp add: release_run_def Let_def h [symmetric] links_eqD(4) [OF free_run_links])
  show "nFreeFrames (obj (release_run f t k) p) =
           (if p = t then nFreeFrames (obj k p) + 1 + of_nat m else nFreeFrames (obj k p))"
    using r by (simp add: rr)
  have "frame_state (release_run f t k) t g =
      (if \<exists>j<m. g = h + 1 + of_nat j then Free else frame_state ?k5 t g)"
    using r by (simp add: rr)
  also have "\<dots> = (if g = h \<or> (\<exists>j<m. g = h + 1 + of_nat j) then Free else frame_state k t g)"
  proof (cases "g = h")
    case True
    have "\<not> (\<exists>j<m. h = h + 1 + of_nat j)"
      using ne by (metis less_imp_le)
    then show ?thesis using fs5h True by simp
  next
    case False
    have e1: "frame_state ?k5 t g = frame_state k t g"
      by (rule fs5 [OF False])
    have e2: "(g = h \<or> (\<exists>j<m. g = h + 1 + of_nat j)) = (\<exists>j<m. g = h + 1 + of_nat j)"
      using False by blast
    show ?thesis by (simp only: e1 e2)
  qed
  finally show "frame_state (release_run f t k) t g =
           (if g = h \<or> (\<exists>j<m. g = h + 1 + of_nat j) then Free else frame_state k t g)" .
qed

section \<open>Facts about allocation followed by release\<close>

lemma frame_state_unlink [simp]: "frame_state (unlink t k) this g = frame_state k this g"
  by (rule frame_state_cong) simp_all

lemma release_found_head_keeps:
  assumes "frame_state k t (f - base_frame_no (obj k t)) = HoS"
  shows "nFreeFrames (obj (release_found f t k) p) = nFreeFrames (obj (release_run f t k) p)"
    and "frame_state (release_found f t k) this g = frame_state (release_run f t k) this g"
  by (simp_all add: release_found_head [OF assms])

lemma of_nat_unat_minus_one:
  fixes n :: ulong
  assumes "n \<noteq> 0"
  shows "(of_nat (unat n - 1) :: ulong) = n - 1"
proof -
  have "0 < unat n" using assms by (simp add: unat_gt_0)
  then have "(of_nat (unat n - 1) :: ulong) = of_nat (unat n) - 1"
    by (simp add: of_nat_diff)
  then show ?thesis by simp
qed

lemma round_trip:
  assumes pa: "path (\<lambda>p. next_pool (obj k p)) (head k) ps 0"
    and own: "owner (obj k) (h + base_frame_no (obj k this)) ps = Some this"
    and free: "nFreeFrames (obj k this) > 0" and n: "n \<noteq> 0"
    and below: "\<forall>i. i < h \<longrightarrow> frame_state k this i = Used \<or> frame_state k this i = HoS"
    and first: "frame_state k this h = Free"
    and inside: "unat h + unat n \<le> unat (nframes (obj k this))"
    and stop: "unat h + unat n = unat (nframes (obj k this))
               \<or> frame_state k this (h + n) \<noteq> Used"
  defines "k1 \<equiv> used_loop this (n - 1) 0 (h + 1)
                 (upd_obj this (\<lambda>p. p\<lparr>nFreeFrames := nFreeFrames p - 1\<rparr>)
                   (set_state this h HoS k))"
  defines "f \<equiv> h + base_frame_no (obj k this)"
  shows "get_frames this n k = Some (Inr (f, k1))"
    and "release_frames f k1 = Some (release_found f this k1)"
    and "nFreeFrames (obj (release_found f this k1) this) = nFreeFrames (obj k this)"
    and "\<And>j. j < unat n \<Longrightarrow> frame_state (release_found f this k1) this (h + of_nat j) = Free"
    and "\<And>g. \<forall>j<unat n. g \<noteq> h + of_nat j \<Longrightarrow>
           frame_state (release_found f this k1) this g = frame_state k this g"
proof -
  note m = get_frames_marks [OF free n below first, folded k1_def]
  have un: "0 < unat n"
    using n by (simp add: unat_gt_0)
  show "get_frames this n k = Some (Inr (f, k1))"
    using m(1) by (simp add: f_def)
  have l: "links k1 = links k"
    by (rule m(6))
  have pa1: "path (\<lambda>p. next_pool (obj k1 p)) (head k1) ps 0"
    using pa by (simp add: links_path [OF l] links_eqD(1) [OF l])
  have own1: "owner (obj k1) f ps = Some this"
    using own by (simp add: links_owner [OF l] f_def)
  show "release_frames f k1 = Some (release_found f this k1)"
    by (simp add: release_frames_registry [OF pa1] own1)
  have b1: "base_frame_no (obj k1 this) = base_frame_no (obj k this)"
    by (rule links_eqD(4) [OF l])
  have hf: "h = f - base_frame_no (obj k1 this)"
    by (simp add: f_def b1)
  have hos: "frame_state k1 this h = HoS"
    by (rule m(2))
  have hos': "frame_state k1 this (f - base_frame_no (obj k1 this)) = HoS"
    using hos hf by simp
  have used: "\<forall>j<unat n - 1. frame_state k1 this (h + 1 + of_nat j) = Used"
  proof (intro allI impI)
    fix j assume "j < unat n - 1"
    then have "frame_state k1 this (h + of_nat (Suc j)) = Used"
      by (intro m(3)) simp_all
    then show "frame_state k1 this (h + 1 + of_nat j) = Used"
      by (simp add: add.assoc)
  qed
  have nf1: "nframes (obj k1 this) = nframes (obj k this)"
    by (rule links_eqD(5) [OF l])
  have inside1: "unat h + 1 + (unat n - 1) \<le> unat (nframes (obj k1 this))"
    using inside un by (simp add: nf1)
  have "h + 1 + of_nat (unat n - 1) = h + 1 + (n - 1)"
    by (simp only: of_nat_unat_minus_one [OF n])
  then have hn: "h + 1 + of_nat (unat n - 1) = h + n"
    by simp
  have "\<forall>j<unat n. h + n \<noteq> h + of_nat j"
  proof (intro allI impI)
    fix j assume j: "j < unat n"
    then have "j < 2 ^ 32" using unat_lt_2p32 [of n] by linarith
    then have "unat (of_nat j :: ulong) = j" by (simp add: unat_of_nat)
    then have "n \<noteq> of_nat j" using j by auto
    then show "h + n \<noteq> h + of_nat j" by simp
  qed
  then have "frame_state k1 this (h + n) = frame_state k this (h + n)"
    by (rule m(4))
  then have stop1: "unat h + 1 + (unat n - 1) = unat (nframes (obj k1 this))
               \<or> frame_state k1 this (h + 1 + of_nat (unat n - 1)) \<noteq> Used"
    using stop un by (simp add: nf1 hn)
  note e = release_run_effect [OF hos hf used inside1 stop1]
  have "nFreeFrames (obj (release_run f this k1) this)
      = nFreeFrames (obj k1 this) + 1 + of_nat (unat n - 1)"
    using e(1) [of this] by simp
  then have "nFreeFrames (obj (release_run f this k1) this) = nFreeFrames (obj k1 this) + 1 + (n - 1)"
    by (simp only: of_nat_unat_minus_one [OF n])
  then have "nFreeFrames (obj (release_run f this k1) this) = nFreeFrames (obj k this)"
    by (simp add: m(5))
  then show "nFreeFrames (obj (release_found f this k1) this) = nFreeFrames (obj k this)"
    by (simp add: release_found_head_keeps(1) [OF hos'])
  have fs: "frame_state (release_found f this k1) this g =
      (if g = h \<or> (\<exists>j<unat n - 1. g = h + 1 + of_nat j) then Free else frame_state k1 this g)"
    for g
    by (simp only: release_found_head_keeps(2) [OF hos'] e(2))
  show "frame_state (release_found f this k1) this (h + of_nat j) = Free" if j: "j < unat n" for j
  proof (cases j)
    case 0
    then show ?thesis by (simp add: fs)
  next
    case (Suc i)
    then have "i < unat n - 1 \<and> h + of_nat j = h + 1 + of_nat i"
      using j by simp
    then have "h + of_nat j = h \<or> (\<exists>i<unat n - 1. h + of_nat j = h + 1 + of_nat i)"
      by blast
    then show ?thesis by (simp only: fs if_True)
  qed
  show "frame_state (release_found f this k1) this g = frame_state k this g"
    if g: "\<forall>j<unat n. g \<noteq> h + of_nat j" for g
  proof -
    have gh: "g \<noteq> h" using g [rule_format, of 0] un by simp
    have "\<not> (\<exists>j<unat n - 1. g = h + 1 + of_nat j)"
    proof
      assume "\<exists>j<unat n - 1. g = h + 1 + of_nat j"
      then obtain j where "j < unat n - 1" "g = h + 1 + of_nat j" by blast
      then have "Suc j < unat n" "g = h + of_nat (Suc j)" by simp_all
      then show False using g by blast
    qed
    then have "\<not> (g = h \<or> (\<exists>j<unat n - 1. g = h + 1 + of_nat j))"
      using gh by blast
    then have "frame_state (release_found f this k1) this g = frame_state k1 this g"
      by (simp only: fs if_False)
    then show ?thesis using m(4) [OF g] by simp
  qed
qed

lemma release_frames_empty_registry:
  assumes "head k = 0"
  shows "release_frames f k = Some k"
  using assms by (simp add: release_frames_def release_loop.simps)

section \<open>Facts about the constructor\<close>

lemma field_put_zero: "field_put p 0 0 = 0"
  by (simp add: field_put_def)

lemma set_state_Free_clear:
  assumes "mem k = (\<lambda>a. 0)"
  shows "mem (set_state this f Free k) = (\<lambda>a. 0)"
  using assms by (simp add: mem_set_state field_put_zero fun_eq_iff)

lemma free_loop_clear:
  "mem k = (\<lambda>a. 0) \<Longrightarrow> mem (free_loop this fno k) = (\<lambda>a. 0)"
proof (induction this fno k rule: free_loop.induct)
  case (1 this fno k)
  show ?case
  proof (cases "fno < nframes (obj k this)")
    case True
    have "mem (set_state this fno Free k) = (\<lambda>a. 0)"
      using "1.prems" by (rule set_state_Free_clear)
    then have "mem (free_loop this (fno + 1) (set_state this fno Free k)) = (\<lambda>a. 0)"
      by (rule "1.IH" [OF True])
    then show ?thesis
      using True by (subst free_loop.simps) simp
  next
    case False
    then show ?thesis using "1.prems" by (subst free_loop.simps) simp
  qed
qed

lemma free_loop_fields:
  "obj (free_loop this fno k) = obj k \<and> head (free_loop this fno k) = head k
   \<and> tail (free_loop this fno k) = tail k \<and> console (free_loop this fno k) = console k"
proof (induction this fno k rule: free_loop.induct)
  case (1 this fno k)
  show ?case
  proof (cases "fno < nframes (obj k this)")
    case True
    then show ?thesis
      using "1.IH" [OF True] by (subst (1 2 3 4) free_loop.simps) simp
  next
    case False
    then show ?thesis by (subst (1 2 3 4) free_loop.simps) simp
  qed
qed

lemmas free_loop_keeps [simp] =
  free_loop_fields [THEN conjunct1]
  free_loop_fields [THEN conjunct2, THEN conjunct1]
  free_loop_fields [THEN conjunct2, THEN conjunct2, THEN conjunct1]
  free_loop_fields [THEN conjunct2, THEN conjunct2, THEN conjunct2]

lemma frame_state_clear:
  assumes "mem k = (\<lambda>a. 0)"
  shows "frame_state k this g = Free"
  using assms by (simp add: frame_state_def get_state_def Let_def)

lemma frame_state_record_upd [simp]:
  "frame_state (k\<lparr>head := h\<rparr>) this g = frame_state k this g"
  "frame_state (k\<lparr>tail := t\<rparr>) this g = frame_state k this g"
  "frame_state (upd_obj p (\<lambda>q. q\<lparr>next_pool := c q\<rparr>) k) this g = frame_state k this g"
  "frame_state (upd_obj p (\<lambda>q. q\<lparr>prev_pool := c q\<rparr>) k) this g = frame_state k this g"
  by (rule frame_state_cong; simp)+

lemma ctor_result:
  fixes FRAME_SIZE this b n i :: ulong and k :: kernel
  assumes "nframes (obj k this) * 2 \<le> FRAME_SIZE * 8"
  defines "k' \<equiv> projr (ContFramePool_ctor FRAME_SIZE this b n i k)"
  shows "ContFramePool_ctor FRAME_SIZE this b n i k = Inr k'"
    and "head k' = (if head k = 0 then this else head k)" and "tail k' = this"
    and "next_pool (obj k' p) =
        (if head k = 0 then next_pool (obj k p)
         else if p = this then 0 else if p = tail k then this else next_pool (obj k p))"
    and "prev_pool (obj k' p) =
        (if head k \<noteq> 0 \<and> p = this then tail k else prev_pool (obj k p))"
    and "base_frame_no (obj k' this) = b" and "nframes (obj k' this) = n"
    and "info_frame_no (obj k' this) = i" and "nFreeFrames (obj k' this) = n - 1"
    and "bitmap (obj k' this) = FRAME_SIZE * (if i = 0 then b else i)"
    and "mem k = (\<lambda>a. 0) \<Longrightarrow> frame_state k' this g = (if g = i then HoS else Free)"
proof -
  show "ContFramePool_ctor FRAME_SIZE this b n i k = Inr k'"
    using assms(1) by (simp add: k'_def ContFramePool_ctor_def Let_def)
  show "head k' = (if head k = 0 then this else head k)"
    using assms(1) by (simp add: k'_def ContFramePool_ctor_def Let_def)
  show "tail k' = this"
    using assms(1) by (simp add: k'_def ContFramePool_ctor_def Let_def)
  show "next_pool (obj k' p) =
        (if head k = 0 then next_pool (obj k p)
         else if p = this then 0 else if p = tail k then this else next_pool (obj k p))"
    using assms(1) by (simp add: k'_def ContFramePool_ctor_def Let_def)
  show "prev_pool (obj k' p) =
        (if head k \<noteq> 0 \<and> p = this then tail k else prev_pool (obj k p))"
    using assms(1) by (simp add: k'_def ContFramePool_ctor_def Let_def)
  show "base_frame_no (obj k' this) = b"
    using assms(1) by (simp add: k'_def ContFramePool_ctor_def Let_def)
  show "nframes (obj k' this) = n"
    using assms(1) by (simp add: k'_def ContFramePool_ctor_def Let_def)
  show "info_frame_no (obj k' this) = i"
    using assms(1) by (simp add: k'_def ContFramePool_ctor_def Let_def)
  show "nFreeFrames (obj k' this) = n - 1"
    using assms(1) by (simp add: k'_def ContFramePool_ctor_def Let_def)
  show "bitmap (obj k' this) = FRAME_SIZE * (if i = 0 then b else i)"
    using assms(1) by (simp add: k'_def ContFramePool_ctor_def Let_def)
  show "frame_state k' this g = (if g = i then HoS else Free)" if z: "mem k = (\<lambda>a. 0)"
  proof -
    let ?k4 = "upd_obj this (\<lambda>p. p\<lparr>info_frame_no := i\<rparr>)
               (upd_obj this (\<lambda>p. p\<lparr>nFreeFrames := n\<rparr>)
                 (upd_obj this (\<lambda>p. p\<lparr>nframes := n\<rparr>)
                   (upd_obj this (\<lambda>p. p\<lparr>base_frame_no := b\<rparr>) k)))"
    have c: "mem (free_loop this 0 ?k4) = (\<lambda>a. 0)"
      using z by (intro free_loop_clear) simp
    have f: "frame_state (set_state this j HoS K) this h = (if h = j then HoS else Free)"
      if "mem K = (\<lambda>a. 0)" for K j h
      using frame_state_clear [OF that]
      by (simp add: frame_state_set_same frame_state_set_other)
    show ?thesis
      using assms(1) by (simp add: k'_def ContFramePool_ctor_def Let_def f free_loop_clear z)
  qed
qed


lemma path_cong:
  "\<forall>x \<in> set xs. nx' x = nx x \<Longrightarrow> path nx' p xs q = path nx p xs q"
  by (induction xs arbitrary: p) auto

lemma prevs_cong:
  "\<forall>x \<in> set xs. pv' x = pv x \<Longrightarrow> prevs pv' q xs = prevs pv q xs"
  by (induction xs arbitrary: q) auto

lemma ctor_registry:
  fixes FRAME_SIZE this b n i :: ulong and k :: kernel
  assumes a: "nframes (obj k this) * 2 \<le> FRAME_SIZE * 8"
    and reg: "registry k ps" and new: "this \<notin> set ps" "this \<noteq> 0"
    and first: "ps = [] \<longrightarrow> next_pool (obj k this) = 0 \<and> prev_pool (obj k this) = 0"
  shows "registry (projr (ContFramePool_ctor FRAME_SIZE this b n i k)) (ps @ [this])"
proof -
  let ?k' = "projr (ContFramePool_ctor FRAME_SIZE this b n i k)"
  let ?nx = "\<lambda>p. next_pool (obj k p)" and ?pv = "\<lambda>p. prev_pool (obj k p)"
  let ?nx' = "\<lambda>p. next_pool (obj ?k' p)" and ?pv' = "\<lambda>p. prev_pool (obj ?k' p)"
  note c = ctor_result(2-5) [OF a, of b n i]
  have pa: "path ?nx (head k) ps 0" and pr: "prevs ?pv 0 ps"
    and tl: "tail k = last (0 # ps)" and d: "distinct ps"
    using reg by (simp_all add: registry_def)
  show ?thesis
  proof (cases ps rule: rev_cases)
    case Nil
    then have h: "head k = 0" using pa by simp
    show ?thesis
      using first new(2) by (simp add: registry_def Nil c h)
  next
    case (snoc ps' u)
    have u: "u \<noteq> 0" "u \<noteq> this" "u \<notin> set ps'" "this \<notin> set ps'"
      using path_nonzero [OF pa] new(1) d by (auto simp: snoc)
    have tk: "tail k = u"
      using tl by (simp add: snoc)
    have h: "head k \<noteq> 0"
      using pa u(1) path_nonzero [OF pa] by (cases ps') (auto simp: snoc)
    have p1: "path ?nx (head k) ps' u"
      using pa by (simp add: snoc path_last)
    have "path ?nx' (head k) ps' u = path ?nx (head k) ps' u"
      using u(3,4) by (intro path_cong) (auto simp: c h tk)
    then have q1: "path ?nx' (head k) ps' u"
      using p1 by simp
    have q2: "?nx' u = this" "?nx' this = 0"
      using u(2) by (simp_all add: c h tk)
    have path': "path ?nx' (head ?k') (ps' @ [u] @ [this]) 0"
      unfolding path_append
    proof (intro exI conjI)
      show "path ?nx' (head ?k') ps' u"
        using q1 by (simp add: c h)
      show "path ?nx' u [u] this"
        using u(1) q2(1) by simp
      show "path ?nx' this [this] 0"
        using new(2) q2(2) by simp
    qed
    have "prevs ?pv' 0 ps = prevs ?pv 0 ps"
      using new(1) by (intro prevs_cong) (auto simp: c)
    then have r1: "prevs ?pv' 0 ps"
      using pr by simp
    have r2: "?pv' this = u"
      by (simp add: c h tk)
    have prevs': "prevs ?pv' 0 (ps @ [this])"
      using r1 r2 by (simp add: prevs_append snoc)
    show ?thesis
      using path' prevs' d new(1) u(2) by (simp add: registry_def snoc c)
  qed
qed

section \<open>Facts about the example states\<close>

lemma retired_reached:
  "pool_view (released (release_frames 100 pool10)) 0x500 = pool_view retired 0x500"
  by code_simp

section \<open>Facts about an allocation that finds its first free frame\<close>

text \<open>
  When the free counter is not zero, \<open>n\<close> is at least 1, frame \<open>h\<close> is \<open>Free\<close> and every
  frame below it is \<open>Used\<close> or \<open>HoS\<close>, \<open>get_frames n\<close> answers \<open>h + base_frame_no\<close>, frame
  \<open>h\<close> is \<open>HoS\<close> afterwards and the \<open>n - 1\<close> frames after it are \<open>Used\<close>, whatever they
  held before, every other frame keeps its state, and the free counter has gone down by
  \<open>n\<close> modulo \<open>2 ^ 32\<close>.
\<close>

lemma get_frames_first_fit:
  assumes "nFreeFrames (obj k this) > 0" and "n \<noteq> 0"
    and "\<forall>i. i < h \<longrightarrow> frame_state k this i = Used \<or> frame_state k this i = HoS"
    and "frame_state k this h = Free"
  shows "\<exists>k'. get_frames this n k = Some (Inr (h + base_frame_no (obj k this), k'))
      \<and> frame_state k' this h = HoS
      \<and> (\<forall>j. 0 < j \<and> j < unat n \<longrightarrow> frame_state k' this (h + of_nat j) = Used)
      \<and> (\<forall>g. (\<forall>j<unat n. g \<noteq> h + of_nat j) \<longrightarrow> frame_state k' this g = frame_state k this g)
      \<and> nFreeFrames (obj k' this) = nFreeFrames (obj k this) - n
      \<and> (n \<le> nFreeFrames (obj k this) \<longrightarrow>
            unat (nFreeFrames (obj k' this)) = unat (nFreeFrames (obj k this)) - unat n)"
proof -
  note m = get_frames_marks [OF assms]
  show ?thesis
  proof (intro exI conjI allI impI)
    show "get_frames this n k = Some (Inr (h + base_frame_no (obj k this),
        used_loop this (n - 1) 0 (h + 1)
          (upd_obj this (\<lambda>p. p\<lparr>nFreeFrames := nFreeFrames p - 1\<rparr>) (set_state this h HoS k))))"
      by (rule m(1))
  next
    fix j assume "0 < j \<and> j < unat n"
    then show "frame_state (used_loop this (n - 1) 0 (h + 1)
          (upd_obj this (\<lambda>p. p\<lparr>nFreeFrames := nFreeFrames p - 1\<rparr>) (set_state this h HoS k)))
        this (h + of_nat j) = Used"
      using m(3) by blast
  next
    fix g assume "\<forall>j<unat n. g \<noteq> h + of_nat j"
    then show "frame_state (used_loop this (n - 1) 0 (h + 1)
          (upd_obj this (\<lambda>p. p\<lparr>nFreeFrames := nFreeFrames p - 1\<rparr>) (set_state this h HoS k)))
        this g = frame_state k this g"
      by (rule m(4))
  next
    assume "n \<le> nFreeFrames (obj k this)"
    then show "unat (nFreeFrames (obj (used_loop this (n - 1) 0 (h + 1)
          (upd_obj this (\<lambda>p. p\<lparr>nFreeFrames := nFreeFrames p - 1\<rparr>) (set_state this h HoS k)))
        this)) = unat (nFreeFrames (obj k this)) - unat n"
      by (simp only: m(5) unat_sub)
  qed (rule m(2) m(5))+
qed

lemma get_frames_first_fit_pool10:
  "nFreeFrames (obj pool10 0x500) > 0 \<and> (3 :: ulong) \<noteq> 0
   \<and> frame_state pool10 0x500 0 = HoS \<and> frame_state pool10 0x500 1 = Free
   \<and> answer (get_frames 0x500 3 pool10) = Some (Inr 101)
   \<and> frame_state (allocated (get_frames 0x500 3 pool10)) 0x500 1 = HoS
   \<and> frame_state (allocated (get_frames 0x500 3 pool10)) 0x500 2 = Used
   \<and> frame_state (allocated (get_frames 0x500 3 pool10)) 0x500 3 = Used
   \<and> nFreeFrames (obj (allocated (get_frames 0x500 3 pool10)) 0x500) = 6"
proof -
  have h1: "nFreeFrames (obj pool10 0x500) > 0" by code_simp
  have h2: "(3 :: ulong) \<noteq> 0" by simp
  have f0: "frame_state pool10 0x500 0 = HoS" by code_simp
  have h3: "\<forall>i. i < 1 \<longrightarrow> frame_state pool10 0x500 i = Used \<or> frame_state pool10 0x500 i = HoS"
    using f0 by (simp add: word_less_1)
  have h4: "frame_state pool10 0x500 1 = Free" by code_simp
  have b: "base_frame_no (obj pool10 0x500) = 100" by code_simp
  have n: "nFreeFrames (obj pool10 0x500) = 9" by code_simp
  from get_frames_first_fit [OF h1 h2 h3 h4]
  obtain k' where k': "get_frames 0x500 3 pool10 = Some (Inr (1 + base_frame_no (obj pool10 0x500), k'))"
      "frame_state k' 0x500 1 = HoS"
      "\<forall>j. 0 < j \<and> j < unat (3 :: ulong) \<longrightarrow> frame_state k' 0x500 (1 + of_nat j) = Used"
      "nFreeFrames (obj k' 0x500) = nFreeFrames (obj pool10 0x500) - 3"
    by blast
  have a: "allocated (get_frames 0x500 3 pool10) = k'"
    by (simp add: k'(1) allocated_def)
  have r: "answer (get_frames 0x500 3 pool10) = Some (Inr 101)"
    by (simp add: k'(1) answer_def b)
  have u: "frame_state k' 0x500 2 = Used" "frame_state k' 0x500 3 = Used"
    using k'(3) [rule_format, of 1] k'(3) [rule_format, of 2] by simp_all
  show ?thesis
    using h1 h2 f0 h4 r k'(2) u k'(4) by (simp add: a n)
qed

section \<open>Facts about a release that does not find a head of sequence\<close>

text \<open>
  When the first pool of the registry with frame \<open>f\<close> in its range does not hold \<open>HoS\<close>
  for it, \<open>release_frames f\<close> returns, memory, the pool objects, \<^verbatim>\<open>head\<close> and \<^verbatim>\<open>tail\<close> are
  what they were, and the console has got the message that the first frame is not a head
  of sequence (after the codec's own message when the frame holds the reserved pattern).
\<close>

lemma release_frames_reports_not_head:
  assumes "path (\<lambda>p. next_pool (obj k p)) (head k) ps 0"
    and "owner (obj k) f ps = Some t"
    and "frame_state k t (f - base_frame_no (obj k t)) \<noteq> HoS"
  shows "\<exists>k'. release_frames f k = Some k'
             \<and> mem k' = mem k \<and> obj k' = obj k \<and> head k' = head k \<and> tail k' = tail k
             \<and> console k' = console k
                 @ (if frame_state k t (f - base_frame_no (obj k t)) = Error
                    then [Puts (''ERROR: Invalid frame state detected!'' @ NL)] else [])
                 @ [Puts ''release_frames(): first frame not a Head-Of-Sequence'']"
proof -
  have "release_frames f k = Some (release_found f t k)"
    using assms(2) by (simp add: release_frames_registry [OF assms(1)])
  then show ?thesis
    using assms(3) by (simp add: release_found_not_head)
qed

section \<open>The constructor on cleared memory\<close>

text \<open>
  When the assertion on the stored frame count passes, the management information is kept in
  the pool's own first frame (\<open>info_frame_no = 0\<close>) and the memory is clear, the
  constructor succeeds, leaves frame 0 as a head of sequence and every other frame free, sets
  the free count to \<open>n - 1\<close>, and appends the pool to the registry.
\<close>

theorem constructor_on_clear_memory:
  fixes FRAME_SIZE this b n :: ulong and k :: kernel
  assumes "nframes (obj k this) * 2 \<le> FRAME_SIZE * 8" and "mem k = (\<lambda>a. 0)"
    and "registry k ps" and "this \<notin> set ps" and "this \<noteq> 0"
    and "ps = [] \<longrightarrow> next_pool (obj k this) = 0 \<and> prev_pool (obj k this) = 0"
  shows "\<exists>k'. ContFramePool_ctor FRAME_SIZE this b n 0 k = Inr k'
     \<and> frame_state k' this 0 = HoS
     \<and> (\<forall>g. g \<noteq> 0 \<longrightarrow> frame_state k' this g = Free)
     \<and> nFreeFrames (obj k' this) = n - 1
     \<and> base_frame_no (obj k' this) = b \<and> nframes (obj k' this) = n
     \<and> bitmap (obj k' this) = FRAME_SIZE * b
     \<and> registry k' (ps @ [this])"
proof -
  let ?k' = "projr (ContFramePool_ctor FRAME_SIZE this b n 0 k)"
  note c = ctor_result [OF assms(1), of b n 0]
  have fs: "frame_state ?k' this g = (if g = 0 then HoS else Free)" for g
    using assms(2) by (rule c(11))
  have "ContFramePool_ctor FRAME_SIZE this b n 0 k = Inr ?k'
     \<and> frame_state ?k' this 0 = HoS
     \<and> (\<forall>g. g \<noteq> 0 \<longrightarrow> frame_state ?k' this g = Free)
     \<and> nFreeFrames (obj ?k' this) = n - 1
     \<and> base_frame_no (obj ?k' this) = b \<and> nframes (obj ?k' this) = n
     \<and> bitmap (obj ?k' this) = FRAME_SIZE * b
     \<and> registry ?k' (ps @ [this])"
  proof (intro conjI allI impI)
    show "ContFramePool_ctor FRAME_SIZE this b n 0 k = Inr ?k'"
      by (rule c(1))
    show "frame_state ?k' this 0 = HoS"
      by (simp add: fs)
    show "frame_state ?k' this g = Free" if "g \<noteq> 0" for g
      using that by (simp add: fs)
    show "nFreeFrames (obj ?k' this) = n - 1"
      by (rule c(9))
    show "base_frame_no (obj ?k' this) = b"
      by (rule c(6))
    show "nframes (obj ?k' this) = n"
      by (rule c(7))
    show "bitmap (obj ?k' this) = FRAME_SIZE * b"
      using c(10) by simp
    show "registry ?k' (ps @ [this])"
      using assms(1,3,4,5,6) by (rule ctor_registry)
  qed
  then show ?thesis by (rule exI)
qed

text \<open>
  The first pool of the examples: ten frames from frame 100, constructed at boot.
\<close>

theorem constructor_on_clear_memory_witness:
  "nframes (obj boot 0x500) * 2 \<le> (4096 :: ulong) * 8 \<and> mem boot = (\<lambda>a. 0)
   \<and> registry boot [] \<and> (0x500 :: ulong) \<noteq> 0
   \<and> next_pool (obj boot 0x500) = 0 \<and> prev_pool (obj boot 0x500) = 0
   \<and> frame_state pool10 0x500 0 = HoS \<and> frame_state pool10 0x500 1 = Free
   \<and> nFreeFrames (obj pool10 0x500) = 9 \<and> registry pool10 [0x500]"
proof -
  have h1: "nframes (obj boot 0x500) * 2 \<le> (4096 :: ulong) * 8"
    by (simp add: boot_def)
  have h2: "mem boot = (\<lambda>a. 0)"
    by (simp add: boot_def)
  have h3: "registry boot []"
    by (simp add: registry_def boot_def)
  have h4: "(0x500 :: ulong) \<notin> set []" and h5: "(0x500 :: ulong) \<noteq> 0"
    by simp_all
  have l: "next_pool (obj boot 0x500) = 0" "prev_pool (obj boot 0x500) = 0"
    by (simp_all add: boot_def)
  then have h6: "([] :: ptr list) = [] \<longrightarrow>
      next_pool (obj boot 0x500) = 0 \<and> prev_pool (obj boot 0x500) = 0"
    by simp
  from constructor_on_clear_memory [OF h1 h2 h3 h4 h5 h6, of 100 10]
  obtain k' where k': "ContFramePool_ctor 4096 0x500 100 10 0 boot = Inr k'"
      "frame_state k' 0x500 0 = HoS"
      "\<forall>g. g \<noteq> 0 \<longrightarrow> frame_state k' 0x500 g = Free"
      "nFreeFrames (obj k' 0x500) = 10 - 1"
      "registry k' ([] @ [0x500])"
    by blast
  have e: "pool10 = k'"
    by (simp add: pool10_def constructed_def k'(1))
  have f1: "frame_state k' 0x500 1 = Free"
    using k'(3) by simp
  show ?thesis
    using h1 h2 h3 h5 l k'(2) f1 k'(4) k'(5) by (simp add: e)
qed

section \<open>The state codec (claim C9)\<close>

text \<open>
  C9. For every frame number \<open>f\<close> and every state \<open>s\<close> other than \<open>Error\<close>, after
  \<open>set_state f s\<close> the call \<open>get_state f\<close> answers \<open>s\<close>, and the two bits of \<open>f\<close> hold
  the code of \<open>s\<close> (00 for Free, 01 for Used, 10 for HoS); \<open>get_state g\<close> answers what
  it answered before for every other frame number \<open>g\<close>; no bit of memory outside the
  two bits of \<open>f\<close> changes; \<open>set_state\<close> with \<open>Error\<close> changes nothing; and
  \<open>get_state\<close> decodes the two bits by the same table, 11 being \<open>Error\<close>.
\<close>

theorem set_state_then_get_state:
  "(s \<noteq> Error \<longrightarrow>
      fst (get_state this f (set_state this f s k)) = s
      \<and> frame_bits (set_state this f s k) this f = encoding s)
   \<and> (\<forall>g. g \<noteq> f \<longrightarrow>
         fst (get_state this g (set_state this f s k)) = fst (get_state this g k))
   \<and> (\<forall>a n. a \<noteq> bitmap (obj k this) + f div 4 \<or> n < 2 * (unat f mod 4)
            \<or> 2 * (unat f mod 4) + 2 \<le> n
         \<longrightarrow> bit (mem (set_state this f s k) a) n = bit (mem k a) n)
   \<and> set_state this f Error k = k
   \<and> (\<forall>g s'. fst (get_state this g k) = s' \<longleftrightarrow> frame_bits k this g = encoding s')"
proof (intro conjI allI impI)
  assume "s \<noteq> Error"
  then show "fst (get_state this f (set_state this f s k)) = s"
    using frame_state_set_same [of s this f k] by (simp add: frame_state_def)
next
  assume "s \<noteq> Error"
  then show "frame_bits (set_state this f s k) this f = encoding s"
    by (rule frame_bits_set_same)
next
  fix g assume "g \<noteq> f"
  then show "fst (get_state this g (set_state this f s k)) = fst (get_state this g k)"
    using frame_state_set_other [of g f this s k] by (simp add: frame_state_def)
next
  fix a n
  assume "a \<noteq> bitmap (obj k this) + f div 4 \<or> n < 2 * (unat f mod 4)
            \<or> 2 * (unat f mod 4) + 2 \<le> n"
  then show "bit (mem (set_state this f s k) a) n = bit (mem k a) n"
    by (rule set_state_mem_bits)
next
  show "set_state this f Error k = k"
    by (simp add: set_state_def)
next
  fix g s'
  show "(fst (get_state this g k) = s') = (frame_bits k this g = encoding s')"
    using frame_state_bits [of k this g s'] by (simp add: frame_state_def)
qed

theorem set_state_then_get_state_witness:
  "HoS \<noteq> Error \<and> (5 :: ulong) \<noteq> 6
   \<and> fst (get_state 0x500 6 (set_state 0x500 6 HoS (set_state 0x500 5 Used boot))) = HoS
   \<and> frame_bits (set_state 0x500 6 HoS (set_state 0x500 5 Used boot)) 0x500 6 = 2
   \<and> fst (get_state 0x500 5 (set_state 0x500 6 HoS (set_state 0x500 5 Used boot))) = Used
   \<and> (2 :: nat) < 2 * (unat (6 :: ulong) mod 4)
   \<and> bit (mem (set_state 0x500 6 HoS (set_state 0x500 5 Used boot)) 1) 2
   \<and> mem (set_state 0x500 6 HoS (set_state 0x500 5 Used boot)) 1 = 0x24"
proof -
  let ?k = "set_state 0x500 5 Used boot"
  note t = set_state_then_get_state [of HoS "0x500" 6 ?k]
  have a: "fst (get_state 0x500 6 (set_state 0x500 6 HoS ?k)) = HoS"
    using t by simp
  have b: "frame_bits (set_state 0x500 6 HoS ?k) 0x500 6 = 2"
    using t by simp
  have "fst (get_state 0x500 5 (set_state 0x500 6 HoS ?k)) = fst (get_state 0x500 5 ?k)"
    using t by simp
  moreover have "fst (get_state 0x500 5 ?k) = Used"
    by (simp add: get_state_def set_state_def boot_def Let_def)
  ultimately have c: "fst (get_state 0x500 5 (set_state 0x500 6 HoS ?k)) = Used"
    by simp
  have p: "(2 :: nat) < 2 * (unat (6 :: ulong) mod 4)"
    by simp
  have "bit (mem (set_state 0x500 6 HoS ?k) 1) 2 = bit (mem ?k 1) 2"
    using t p by blast
  moreover have "bit (mem ?k 1) 2"
    by (simp add: set_state_def boot_def Let_def)
  ultimately have d: "bit (mem (set_state 0x500 6 HoS ?k) 1) 2"
    by simp
  have e: "mem (set_state 0x500 6 HoS ?k) 1 = 0x24"
    by (simp add: set_state_def boot_def Let_def)
  show ?thesis
    using a b c p d e by simp
qed

section \<open>Sizing (claim C10)\<close>

text \<open>
  C10, as amended. For every frame size that is not zero and whose number of bits
  \<open>FRAME_SIZE * 8\<close> fits in 32 bits, and every frame count \<open>n\<close> for which
  \<open>n * 2 + FRAME_SIZE * 8 - 1\<close> fits in 32 bits, \<open>needed_info_frames n\<close> is the
  ceiling of \<open>n * 2\<close> over the bits of a frame, that is the least number of frames
  whose bits hold two bits for each of \<open>n\<close> frames, and no smaller frame count gets a
  larger answer.
\<close>

theorem needed_info_frames_ceiling:
  assumes "FRAME_SIZE \<noteq> 0" "unat FRAME_SIZE * 8 < 2 ^ 32"
    and "unat n * 2 + unat FRAME_SIZE * 8 - 1 < 2 ^ 32"
  shows "\<exists>r. needed_info_frames FRAME_SIZE n = Inr r
           \<and> int (unat r) = \<lceil>real (unat n * 2) / real (unat FRAME_SIZE * 8)\<rceil>
           \<and> unat n * 2 \<le> unat r * (unat FRAME_SIZE * 8)
           \<and> (\<forall>j. unat n * 2 \<le> j * (unat FRAME_SIZE * 8) \<longrightarrow> unat r \<le> j)
           \<and> (\<forall>m r'. m \<le> n \<and> needed_info_frames FRAME_SIZE m = Inr r' \<longrightarrow> r' \<le> r)"
proof -
  let ?B = "unat FRAME_SIZE * 8"
  let ?q = "\<lambda>x. (unat x * 2 + ?B - 1) div ?B"
  have pos: "0 < ?B"
    using assms(1) by (simp add: unat_gt_0)
  note n = needed_info_frames_unat [OF assms]
  have mono: "r' \<le> of_nat (?q n)"
    if m: "m \<le> n" "needed_info_frames FRAME_SIZE m = Inr r'" for m r'
  proof -
    have le: "unat m \<le> unat n"
      using m(1) by (simp add: word_le_nat_alt)
    then have "unat m * 2 + ?B - 1 < 2 ^ 32"
      using assms(3) by linarith
    note mm = needed_info_frames_unat [OF assms(1,2) this]
    have "?q m \<le> ?q n"
      using le by (intro div_le_mono) linarith
    then have "unat (of_nat (?q m) :: ulong) \<le> unat (of_nat (?q n) :: ulong)"
      by (simp only: mm(1) n(1))
    then show ?thesis
      using m(2) mm(2) by (simp add: word_le_nat_alt)
  qed
  show ?thesis
  proof (intro exI conjI allI impI)
    show "needed_info_frames FRAME_SIZE n = Inr (of_nat (?q n))"
      by (rule n(2))
    show "int (unat (of_nat (?q n) :: ulong)) = \<lceil>real (unat n * 2) / real ?B\<rceil>"
      by (simp only: n(1) ceil_nat_div [OF pos])
    show "unat n * 2 \<le> unat (of_nat (?q n) :: ulong) * ?B"
      unfolding n(1) using pos by (rule ceil_min(1))
    show "unat (of_nat (?q n) :: ulong) \<le> j" if "unat n * 2 \<le> j * ?B" for j
      unfolding n(1) using pos that by (rule ceil_min(2))
    show "r' \<le> of_nat (?q n)"
      if "m \<le> n \<and> needed_info_frames FRAME_SIZE m = Inr r'" for m r'
      using that mono by blast
  qed
qed

theorem needed_info_frames_ceiling_witness:
  "(4096 :: ulong) \<noteq> 0 \<and> unat (4096 :: ulong) * 8 < 2 ^ 32
   \<and> unat (16385 :: ulong) * 2 + unat (4096 :: ulong) * 8 - 1 < 2 ^ 32
   \<and> needed_info_frames 4096 16385 = Inr 2
   \<and> \<lceil>real (unat (16385 :: ulong) * 2) / real (unat (4096 :: ulong) * 8)\<rceil> = 2
   \<and> (16384 :: ulong) \<le> 16385 \<and> needed_info_frames 4096 16384 = Inr 1"
proof -
  have h: "(4096 :: ulong) \<noteq> 0" "unat (4096 :: ulong) * 8 < 2 ^ 32"
    "unat (16385 :: ulong) * 2 + unat (4096 :: ulong) * 8 - 1 < 2 ^ 32"
    by simp_all
  have v: "needed_info_frames 4096 16385 = Inr 2" "needed_info_frames 4096 16384 = Inr 1"
    by (simp_all add: needed_info_frames_def)
  from needed_info_frames_ceiling [OF h] v(1)
  have "int (unat (2 :: ulong)) = \<lceil>real (unat (16385 :: ulong) * 2) / real (unat (4096 :: ulong) * 8)\<rceil>"
    by auto
  then show ?thesis using h v by simp
qed

text \<open>
  C10, as stated, fails where the arithmetic wraps: with 4096-byte frames the frame count
  \<open>2 ^ 31\<close> is answered with 0 frames, although the ceiling is 131072, and the
  smaller frame count 1 is answered with 1 frame.
\<close>

theorem needed_info_frames_wraps:
  "needed_info_frames 4096 0x80000000 = Inr 0
   \<and> \<lceil>real (unat (0x80000000 :: ulong) * 2) / real (unat (4096 :: ulong) * 8)\<rceil> = 131072
   \<and> needed_info_frames 4096 1 = Inr 1
   \<and> (1 :: ulong) \<le> 0x80000000 \<and> \<not> (1 :: ulong) \<le> 0"
  by (simp add: needed_info_frames_def)

section \<open>Allocation (claim C1)\<close>

text \<open>
  C1 does not hold of the code. The scan of \<open>get_frames\<close> passes over the frames that are
  \<open>Used\<close> or \<open>HoS\<close> and stops at any other frame, so it takes a frame that holds the
  reserved pattern for a free one. In the pool built over the stale byte the frames are
  \<open>HoS, Error, Free, Free\<close> and the free counter is 3, so the first free frame, frame
  102, begins a run of two free frames; \<open>get_frames 1\<close> answers 101, marks that frame
  \<open>HoS\<close> and leaves frame 102 free.
\<close>

theorem get_frames_takes_invalid_frame:
  "nFreeFrames (obj pool4_stale 0x500) = 3
   \<and> base_frame_no (obj pool4_stale 0x500) = 100
   \<and> map (frame_state pool4_stale 0x500) [0, 1, 2, 3] = [HoS, Error, Free, Free]
   \<and> answer (get_frames 0x500 1 pool4_stale) = Some (Inr 101)
   \<and> map (frame_state (allocated (get_frames 0x500 1 pool4_stale)) 0x500) [0, 1, 2, 3]
       = [HoS, HoS, Free, Free]
   \<and> nFreeFrames (obj (allocated (get_frames 0x500 1 pool4_stale)) 0x500) = 2"
  by code_simp

section \<open>Rejected releases (claim C4)\<close>

text \<open>
  C4 does not hold of the code. For a frame that no pool of the registry has in its
  range, \<open>release_frames\<close> returns the state it was given, the console included: nothing
  is reported. Frame 50 is outside the only pool of \<open>pool10\<close>. For frame 105, which is
  in the range of the pool and is not a head of sequence, the same function does put
  its message on the console.
\<close>

theorem release_frames_silent:
  "path (\<lambda>p. next_pool (obj pool10 p)) (head pool10) [0x500] 0
   \<and> owner (obj pool10) 50 [0x500] = None
   \<and> release_frames 50 pool10 = Some pool10
   \<and> owner (obj pool10) 105 [0x500] = Some 0x500
   \<and> frame_state pool10 0x500 (105 - base_frame_no (obj pool10 0x500)) = Free
   \<and> map_option console (release_frames 105 pool10)
       = Some (console pool10 @ [Puts ''release_frames(): first frame not a Head-Of-Sequence''])"
proof -
  have p: "path (\<lambda>p. next_pool (obj pool10 p)) (head pool10) [0x500] 0"
    by code_simp
  have o1: "owner (obj pool10) 50 [0x500] = None"
    by code_simp
  have r1: "release_frames 50 pool10 = Some pool10"
    by (simp only: release_frames_registry [OF p] o1 option.case)
  have o2: "owner (obj pool10) 105 [0x500] = Some 0x500"
    by code_simp
  have s: "frame_state pool10 0x500 (105 - base_frame_no (obj pool10 0x500)) = Free"
    by code_simp
  have r2: "map_option console (release_frames 105 pool10)
       = Some (console pool10 @ [Puts ''release_frames(): first frame not a Head-Of-Sequence''])"
    by code_simp
  show ?thesis
    using p o1 r1 o2 s r2 by simp
qed

section \<open>Retiring a pool (claim C8)\<close>

text \<open>
  C8. Let the registry hold the pools \<open>ps\<close>, and let \<open>release_frames f\<close> find frame \<open>f\<close>
  in pool \<open>t\<close>, the first pool of \<open>ps\<close> with \<open>f\<close> in its range, as a head of sequence.
  Then the call returns. If the free counter of \<open>t\<close> equals its frame count afterwards,
  the registry holds \<open>ps\<close> without \<open>t\<close>, with \<^verbatim>\<open>head\<close>, \<^verbatim>\<open>tail\<close> and the links of the
  neighbours adjusted, and no later \<open>release_frames\<close> finds \<open>t\<close>: each one acts on the
  first owner among the remaining pools, or on none. If the counter is below the frame
  count, the registry still holds \<open>ps\<close>. Either way the object of \<open>t\<close> keeps its bitmap
  pointer, base frame number, frame count and info frame number.
\<close>

theorem release_frames_unlinks:
  assumes "registry k ps" and "owner (obj k) f ps = Some t"
    and "frame_state k t (f - base_frame_no (obj k t)) = HoS"
  shows "\<exists>k'. release_frames f k = Some k'
     \<and> (nFreeFrames (obj k' t) = nframes (obj k' t) \<longrightarrow>
           registry k' (remove1 t ps) \<and> t \<notin> set (remove1 t ps)
           \<and> (\<forall>g. owner (obj k') g (remove1 t ps) \<noteq> Some t)
           \<and> (\<forall>g. release_frames g k' =
                  Some (case owner (obj k') g (remove1 t ps) of
                          None \<Rightarrow> k' | Some u \<Rightarrow> release_found g u k')))
     \<and> (nFreeFrames (obj k' t) \<noteq> nframes (obj k' t) \<longrightarrow> registry k' ps)
     \<and> bitmap (obj k' t) = bitmap (obj k t)
     \<and> base_frame_no (obj k' t) = base_frame_no (obj k t)
     \<and> nframes (obj k' t) = nframes (obj k t)
     \<and> info_frame_no (obj k' t) = info_frame_no (obj k t)"
proof -
  let ?r = "release_run f t k"
  let ?u = "unlink t (puts (''Entire frame pool is now free, removing from list.'' @ NL) ?r)"
  have pa: "path (\<lambda>p. next_pool (obj k p)) (head k) ps 0" and d: "distinct ps"
    using assms(1) by (simp_all add: registry_def)
  have t: "t \<in> set ps"
    using owner_in_set [OF assms(2)] by simp
  have rel: "release_frames f k = Some (release_found f t k)"
    using assms(2) by (simp add: release_frames_registry [OF pa])
  have lr: "links ?r = links k"
    by simp
  have reg_r: "registry ?r ps"
    using assms(1) by (simp add: links_registry [OF lr])
  have notin: "t \<notin> set (remove1 t ps)"
    using d by simp
  show ?thesis
  proof (cases "nFreeFrames (obj ?r t) = nframes (obj ?r t)")
    case True
    then have rf: "release_found f t k = ?u"
      using assms(3) by (simp add: release_found_head)
    have "registry (puts (''Entire frame pool is now free, removing from list.'' @ NL) ?r) ps"
      using reg_r links_registry [of "puts (''Entire frame pool is now free, removing from list.'' @ NL) ?r" ?r ps]
      by simp
    then have reg_u: "registry ?u (remove1 t ps)"
      using t by (rule unlink_registry)
    then have pu: "path (\<lambda>p. next_pool (obj ?u p)) (head ?u) (remove1 t ps) 0"
      by (simp add: registry_def)
    have own: "owner (obj ?u) g (remove1 t ps) \<noteq> Some t" for g
      using owner_in_set [of "obj ?u" g "remove1 t ps" t] notin by blast
    have "release_frames f k = Some ?u
      \<and> (nFreeFrames (obj ?u t) = nframes (obj ?u t) \<longrightarrow>
           registry ?u (remove1 t ps) \<and> t \<notin> set (remove1 t ps)
           \<and> (\<forall>g. owner (obj ?u) g (remove1 t ps) \<noteq> Some t)
           \<and> (\<forall>g. release_frames g ?u =
                  Some (case owner (obj ?u) g (remove1 t ps) of
                          None \<Rightarrow> ?u | Some u \<Rightarrow> release_found g u ?u)))
      \<and> (nFreeFrames (obj ?u t) \<noteq> nframes (obj ?u t) \<longrightarrow> registry ?u ps)
      \<and> bitmap (obj ?u t) = bitmap (obj k t)
      \<and> base_frame_no (obj ?u t) = base_frame_no (obj k t)
      \<and> nframes (obj ?u t) = nframes (obj k t)
      \<and> info_frame_no (obj ?u t) = info_frame_no (obj k t)"
      using rel rf reg_u notin own release_frames_registry [OF pu] True
      by (simp add: links_eqD [OF lr])
    then show ?thesis by blast
  next
    case False
    then have rf: "release_found f t k = ?r"
      using assms(3) by (simp add: release_found_head)
    have "release_frames f k = Some ?r
      \<and> (nFreeFrames (obj ?r t) = nframes (obj ?r t) \<longrightarrow>
           registry ?r (remove1 t ps) \<and> t \<notin> set (remove1 t ps)
           \<and> (\<forall>g. owner (obj ?r) g (remove1 t ps) \<noteq> Some t)
           \<and> (\<forall>g. release_frames g ?r =
                  Some (case owner (obj ?r) g (remove1 t ps) of
                          None \<Rightarrow> ?r | Some u \<Rightarrow> release_found g u ?r)))
      \<and> (nFreeFrames (obj ?r t) \<noteq> nframes (obj ?r t) \<longrightarrow> registry ?r ps)
      \<and> bitmap (obj ?r t) = bitmap (obj k t)
      \<and> base_frame_no (obj ?r t) = base_frame_no (obj k t)
      \<and> nframes (obj ?r t) = nframes (obj k t)
      \<and> info_frame_no (obj ?r t) = info_frame_no (obj k t)"
      using rel rf reg_r False by (simp add: links_eqD [OF lr])
    then show ?thesis by blast
  qed
qed

theorem release_frames_unlinks_witness:
  "registry two_pools [0x500, 0x600]
   \<and> owner (obj two_pools) 200 [0x500, 0x600] = Some 0x600
   \<and> frame_state two_pools 0x600 (200 - base_frame_no (obj two_pools 0x600)) = HoS
   \<and> nFreeFrames (obj (released (release_frames 200 two_pools)) 0x600) = 4
   \<and> nframes (obj (released (release_frames 200 two_pools)) 0x600) = 4
   \<and> registry (released (release_frames 200 two_pools)) [0x500]
   \<and> owner (obj two_pools) 100 [0x500, 0x600] = Some 0x500
   \<and> frame_state two_pools 0x500 (100 - base_frame_no (obj two_pools 0x500)) = HoS
   \<and> registry (released (release_frames 100 two_pools)) [0x600]"
proof -
  have h1: "registry two_pools [0x500, 0x600]" by code_simp
  have h2: "owner (obj two_pools) 200 [0x500, 0x600] = Some 0x600" by code_simp
  have h3: "frame_state two_pools 0x600 (200 - base_frame_no (obj two_pools 0x600)) = HoS"
    by code_simp
  have g2: "owner (obj two_pools) 100 [0x500, 0x600] = Some 0x500" by code_simp
  have g3: "frame_state two_pools 0x500 (100 - base_frame_no (obj two_pools 0x500)) = HoS"
    by code_simp
  have n1: "nFreeFrames (obj (released (release_frames 200 two_pools)) 0x600) = 4"
    and n2: "nframes (obj (released (release_frames 200 two_pools)) 0x600) = 4"
    and m1: "nFreeFrames (obj (released (release_frames 100 two_pools)) 0x500) = 10"
    and m2: "nframes (obj (released (release_frames 100 two_pools)) 0x500) = 10"
    by code_simp+
  from release_frames_unlinks [OF h1 h2 h3]
  obtain k' where k': "release_frames 200 two_pools = Some k'"
    "nFreeFrames (obj k' 0x600) = nframes (obj k' 0x600) \<longrightarrow>
       registry k' (remove1 0x600 [0x500, 0x600])"
    by blast
  have e: "released (release_frames 200 two_pools) = k'"
    by (simp add: k'(1) released_def)
  have r1: "registry (released (release_frames 200 two_pools)) [0x500]"
    using k'(2) n1 n2 by (simp add: e)
  from release_frames_unlinks [OF h1 g2 g3]
  obtain k'' where k'': "release_frames 100 two_pools = Some k''"
    "nFreeFrames (obj k'' 0x500) = nframes (obj k'' 0x500) \<longrightarrow>
       registry k'' (remove1 0x500 [0x500, 0x600])"
    by blast
  have e': "released (release_frames 100 two_pools) = k''"
    by (simp add: k''(1) released_def)
  have r2: "registry (released (release_frames 100 two_pools)) [0x600]"
    using k''(2) m1 m2 by (simp add: e')
  show ?thesis
    using h1 h2 h3 n1 n2 r1 g2 g3 r2 by simp
qed

section \<open>Allocation followed by release (claim C2)\<close>

text \<open>
  C2, as amended. Let the \<^verbatim>\<open>next\<close> pointers lead from \<^verbatim>\<open>head\<close> over the pools \<open>ps\<close> to
  null, and let \<open>this\<close> be the first pool of \<open>ps\<close> with frame \<open>h + base_frame_no\<close> in its
  range. Let the free counter of \<open>this\<close> not be zero, \<open>n\<close> be at least 1, \<open>h\<close> be the first
  free frame of the pool, every frame below it \<open>Used\<close> or \<open>HoS\<close>, and let \<open>h\<close> begin a run
  of \<open>n\<close> free frames that lies within the frame count, the frame after the run, when
  the pool has one, not being \<open>Used\<close>. Then \<open>get_frames n\<close> answers that frame number,
  \<open>release_frames\<close> on it returns, the free counter is what it was before the
  allocation, every frame of the run is \<open>Free\<close>, and every other frame of the pool has
  the state it had.
\<close>

theorem get_frames_release_frames_round_trip:
  assumes "path (\<lambda>p. next_pool (obj k p)) (head k) ps 0"
    and "owner (obj k) (h + base_frame_no (obj k this)) ps = Some this"
    and "nFreeFrames (obj k this) > 0" and "n \<noteq> 0"
    and "\<forall>i. i < h \<longrightarrow> frame_state k this i = Used \<or> frame_state k this i = HoS"
    and "\<forall>j<unat n. frame_state k this (h + of_nat j) = Free"
    and "unat h + unat n \<le> unat (nframes (obj k this))"
    and "unat h + unat n = unat (nframes (obj k this))
         \<or> frame_state k this (h + n) \<noteq> Used"
  shows "\<exists>k1 k2. get_frames this n k = Some (Inr (h + base_frame_no (obj k this), k1))
      \<and> release_frames (h + base_frame_no (obj k this)) k1 = Some k2
      \<and> nFreeFrames (obj k2 this) = nFreeFrames (obj k this)
      \<and> (\<forall>j<unat n. frame_state k2 this (h + of_nat j) = Free)
      \<and> (\<forall>g. (\<forall>j<unat n. g \<noteq> h + of_nat j) \<longrightarrow>
             frame_state k2 this g = frame_state k this g)"
proof -
  have "0 < unat n"
    using assms(4) by (simp add: unat_gt_0)
  then have "frame_state k this (h + of_nat 0) = Free"
    using assms(6) by blast
  then have first: "frame_state k this h = Free"
    by simp
  note r = round_trip [OF assms(1-5) first assms(7,8)]
  show ?thesis
    using r(1) r(2) r(3) r(4) r(5) by blast
qed

theorem get_frames_release_frames_round_trip_witness:
  "path (\<lambda>p. next_pool (obj pool10 p)) (head pool10) [0x500] 0
   \<and> owner (obj pool10) (1 + base_frame_no (obj pool10 0x500)) [0x500] = Some 0x500
   \<and> nFreeFrames (obj pool10 0x500) = 9 \<and> (3 :: ulong) \<noteq> 0
   \<and> frame_state pool10 0x500 0 = HoS
   \<and> map (frame_state pool10 0x500) [1, 2, 3] = [Free, Free, Free]
   \<and> unat (1 :: ulong) + unat (3 :: ulong) \<le> unat (nframes (obj pool10 0x500))
   \<and> frame_state pool10 0x500 (1 + 3) \<noteq> Used
   \<and> answer (get_frames 0x500 3 pool10) = Some (Inr 101)
   \<and> nFreeFrames (obj (released (release_frames 101 (allocated (get_frames 0x500 3 pool10))))
        0x500) = 9
   \<and> frame_state (released (release_frames 101 (allocated (get_frames 0x500 3 pool10))))
        0x500 1 = Free
   \<and> frame_state (released (release_frames 101 (allocated (get_frames 0x500 3 pool10))))
        0x500 2 = Free
   \<and> frame_state (released (release_frames 101 (allocated (get_frames 0x500 3 pool10))))
        0x500 3 = Free"
proof -
  have h1: "path (\<lambda>p. next_pool (obj pool10 p)) (head pool10) [0x500] 0" by code_simp
  have h2: "owner (obj pool10) (1 + base_frame_no (obj pool10 0x500)) [0x500] = Some 0x500"
    by code_simp
  have nf: "nFreeFrames (obj pool10 0x500) = 9" by code_simp
  then have h3: "nFreeFrames (obj pool10 0x500) > 0" by simp
  have h4: "(3 :: ulong) \<noteq> 0" by simp
  have f0: "frame_state pool10 0x500 0 = HoS" by code_simp
  have h5: "\<forall>i. i < 1 \<longrightarrow> frame_state pool10 0x500 i = Used \<or> frame_state pool10 0x500 i = HoS"
    using f0 by (simp add: word_less_1)
  have run: "map (frame_state pool10 0x500) [1, 2, 3] = [Free, Free, Free]" by code_simp
  have h6: "\<forall>j<unat (3 :: ulong). frame_state pool10 0x500 (1 + of_nat j) = Free"
  proof (intro allI impI)
    fix j :: nat assume "j < unat (3 :: ulong)"
    then have "j = 0 \<or> j = 1 \<or> j = 2" by auto
    then show "frame_state pool10 0x500 (1 + of_nat j) = Free"
      using run by auto
  qed
  have h7: "unat (1 :: ulong) + unat (3 :: ulong) \<le> unat (nframes (obj pool10 0x500))"
    by code_simp
  have f4: "frame_state pool10 0x500 (1 + 3) \<noteq> Used" by code_simp
  then have h8: "unat (1 :: ulong) + unat (3 :: ulong) = unat (nframes (obj pool10 0x500))
         \<or> frame_state pool10 0x500 (1 + 3) \<noteq> Used" by simp
  have b: "base_frame_no (obj pool10 0x500) = 100" by code_simp
  from get_frames_release_frames_round_trip [OF h1 h2 h3 h4 h5 h6 h7 h8]
  obtain k1 k2 where k: "get_frames 0x500 3 pool10 = Some (Inr (1 + base_frame_no (obj pool10 0x500), k1))"
      "release_frames (1 + base_frame_no (obj pool10 0x500)) k1 = Some k2"
      "nFreeFrames (obj k2 0x500) = nFreeFrames (obj pool10 0x500)"
      "\<forall>j<unat (3 :: ulong). frame_state k2 0x500 (1 + of_nat j) = Free"
    by blast
  have a: "allocated (get_frames 0x500 3 pool10) = k1"
    by (simp add: k(1) allocated_def)
  have r: "released (release_frames 101 k1) = k2"
    using k(2) by (simp add: released_def b)
  have an: "answer (get_frames 0x500 3 pool10) = Some (Inr 101)"
    by (simp add: k(1) answer_def b)
  have fr: "frame_state k2 0x500 1 = Free" "frame_state k2 0x500 2 = Free"
    "frame_state k2 0x500 3 = Free"
    using k(4) [rule_format, of 0] k(4) [rule_format, of 1] k(4) [rule_format, of 2]
    by simp_all
  show ?thesis
    using h1 h2 nf h4 f0 run h7 f4 an k(3) fr by (simp add: a r)
qed

text \<open>
  C2, as stated, fails for a pool that has left the registry, which a pool does when
  its last allocation is released. In \<open>retired\<close> the pool has ten free frames of ten and
  \<^verbatim>\<open>head\<close> is null; \<open>get_frames 2\<close> takes the two free frames from frame 100 on and
  answers frame 100, and \<open>release_frames 100\<close> finds no pool: the free counter stays at
  8 and the two frames stay \<open>HoS\<close> and \<open>Used\<close>.
\<close>

theorem round_trip_fails_for_retired_pool:
  "pool_view (released (release_frames 100 pool10)) 0x500 = pool_view retired 0x500
   \<and> nFreeFrames (obj retired 0x500) = 10 \<and> nframes (obj retired 0x500) = 10
   \<and> head retired = 0
   \<and> answer (get_frames 0x500 2 retired) = Some (Inr 100)
   \<and> nFreeFrames (obj (released (release_frames 100 (allocated (get_frames 0x500 2 retired))))
        0x500) = 8
   \<and> frame_state (released (release_frames 100 (allocated (get_frames 0x500 2 retired))))
        0x500 0 = HoS
   \<and> frame_state (released (release_frames 100 (allocated (get_frames 0x500 2 retired))))
        0x500 1 = Used"
proof -
  have nf: "nFreeFrames (obj retired 0x500) = 10" and nfr: "nframes (obj retired 0x500) = 10"
    and hd: "head retired = 0" and b: "base_frame_no (obj retired 0x500) = 100"
    and f0: "frame_state retired 0x500 0 = Free"
    by code_simp+
  have free: "nFreeFrames (obj retired 0x500) > 0"
    by (simp add: nf)
  have below: "\<forall>i. i < 0 \<longrightarrow> frame_state retired 0x500 i = Used \<or> frame_state retired 0x500 i = HoS"
    by simp
  have two: "(2 :: ulong) \<noteq> 0"
    by simp
  note m = get_frames_marks [OF free two below f0]
  let ?k = "used_loop 0x500 (2 - 1) 0 (0 + 1)
              (upd_obj 0x500 (\<lambda>p. p\<lparr>nFreeFrames := nFreeFrames p - 1\<rparr>)
                (set_state 0x500 0 HoS retired))"
  have a: "allocated (get_frames 0x500 2 retired) = ?k"
    by (simp only: m(1) allocated_def option.case sum.case prod.case)
  have an: "answer (get_frames 0x500 2 retired) = Some (Inr 100)"
    by (simp add: m(1) answer_def b)
  have "head ?k = 0"
    using links_eqD(1) [OF m(6)] hd by simp
  then have r: "released (release_frames 100 ?k) = ?k"
    by (simp add: release_frames_empty_registry released_def)
  have n8: "nFreeFrames (obj ?k 0x500) = 8"
    using m(5) by (simp add: nf)
  have s0: "frame_state ?k 0x500 0 = HoS"
    by (rule m(2))
  have s1: "frame_state ?k 0x500 1 = Used"
    using m(3) [of 1] by simp
  show ?thesis
    using retired_reached nf nfr hd an n8 s0 s1 by (simp only: a r simp_thms)
qed

text \<open>
  Where the frames that \<open>get_frames\<close> takes are not all free, the amended statement says
  nothing. There the allocation overwrites frames of another allocation, and the release
  that follows frees them: in \<open>two_runs\<close>, a pool in the registry, \<open>get_frames 2\<close> takes
  the free counter from 6 to 4, \<open>release_frames\<close> on its answer takes it to 8, and the
  frames 102 to 104 of the other allocation end up free.
\<close>

lemma round_trip_frees_other_allocation:
  "registry two_runs [0x500]
   \<and> map (frame_state two_runs 0x500) [0, 1, 2, 3, 4, 5, 6, 7, 8, 9]
       = [HoS, Free, HoS, Used, Used, Free, Free, Free, Free, Free]
   \<and> nFreeFrames (obj two_runs 0x500) = 6
   \<and> answer (get_frames 0x500 2 two_runs) = Some (Inr 101)
   \<and> nFreeFrames (obj (allocated (get_frames 0x500 2 two_runs)) 0x500) = 4
   \<and> nFreeFrames (obj (released (release_frames 101 (allocated (get_frames 0x500 2 two_runs))))
        0x500) = 8
   \<and> map (frame_state (released (release_frames 101 (allocated (get_frames 0x500 2 two_runs))))
        0x500) [2, 3, 4] = [Free, Free, Free]"
proof -
  have reg: "registry two_runs [0x500]"
    by code_simp
  have s: "map (frame_state two_runs 0x500) [0, 1, 2, 3, 4, 5, 6, 7, 8, 9]
       = [HoS, Free, HoS, Used, Used, Free, Free, Free, Free, Free]"
    and nf: "nFreeFrames (obj two_runs 0x500) = 6"
    and nfr: "nframes (obj two_runs 0x500) = 10"
    and b: "base_frame_no (obj two_runs 0x500) = 100"
    and pa: "path (\<lambda>p. next_pool (obj two_runs p)) (head two_runs) [0x500] 0"
    and own: "owner (obj two_runs) 101 [0x500] = Some 0x500"
    by code_simp+
  have free: "nFreeFrames (obj two_runs 0x500) > 0"
    by (simp add: nf)
  have below: "\<forall>i. i < 1 \<longrightarrow>
      frame_state two_runs 0x500 i = Used \<or> frame_state two_runs 0x500 i = HoS"
    using s by (simp add: word_less_1)
  have f1: "frame_state two_runs 0x500 1 = Free"
    using s by simp
  have two: "(2 :: ulong) \<noteq> 0"
    by simp
  define k1 where "k1 = used_loop 0x500 (2 - 1) 0 (1 + 1)
              (upd_obj 0x500 (\<lambda>p. p\<lparr>nFreeFrames := nFreeFrames p - 1\<rparr>)
                (set_state 0x500 1 HoS two_runs))"
  note m = get_frames_marks [OF free two below f1, folded k1_def]
  have a: "allocated (get_frames 0x500 2 two_runs) = k1"
    by (simp only: m(1) allocated_def option.case sum.case prod.case)
  have an: "answer (get_frames 0x500 2 two_runs) = Some (Inr 101)"
    by (simp add: m(1) answer_def b)
  have n4: "nFreeFrames (obj k1 0x500) = 4"
    using m(5) by (simp add: nf)
  have l: "links k1 = links two_runs"
    by (rule m(6))
  have pa1: "path (\<lambda>p. next_pool (obj k1 p)) (head k1) [0x500] 0"
    using pa by (simp only: links_path [OF l] links_eqD(1) [OF l])
  have own1: "owner (obj k1) 101 [0x500] = Some 0x500"
    using own by (simp only: links_owner [OF l])
  have rel: "release_frames 101 k1 = Some (release_found 101 0x500 k1)"
    by (simp only: release_frames_registry [OF pa1] own1 option.case)
  have b1: "base_frame_no (obj k1 0x500) = 100"
    by (simp only: links_eqD(4) [OF l] b)
  have nfr1: "nframes (obj k1 0x500) = 10"
    by (simp only: links_eqD(5) [OF l] nfr)
  have hos: "frame_state k1 0x500 1 = HoS"
    by (rule m(2))
  have u2: "frame_state k1 0x500 2 = Used"
    using m(3) [of 1] by simp
  have keep: "frame_state k1 0x500 g = frame_state two_runs 0x500 g" if "g \<noteq> 1" "g \<noteq> 2" for g
  proof (rule m(4), intro allI impI)
    fix j :: nat assume "j < unat (2 :: ulong)"
    then have "j = 0 \<or> j = 1" by auto
    then show "g \<noteq> 1 + of_nat j" using that by auto
  qed
  have u3: "frame_state k1 0x500 3 = Used" and u4: "frame_state k1 0x500 4 = Used"
    and u5: "frame_state k1 0x500 5 = Free"
    using s by (simp_all add: keep)
  have hf: "(1 :: ulong) = 101 - base_frame_no (obj k1 0x500)"
    by (simp only: b1) simp
  have used: "\<forall>j<3. frame_state k1 0x500 (1 + 1 + of_nat j) = Used"
  proof (intro allI impI)
    fix j :: nat assume "j < 3"
    then have "j = 0 \<or> j = 1 \<or> j = 2" by auto
    then show "frame_state k1 0x500 (1 + 1 + of_nat j) = Used"
      using u2 u3 u4 by auto
  qed
  have inside: "unat (1 :: ulong) + 1 + 3 \<le> unat (nframes (obj k1 0x500))"
    by (simp only: nfr1) simp
  have stop: "unat (1 :: ulong) + 1 + 3 = unat (nframes (obj k1 0x500))
      \<or> frame_state k1 0x500 (1 + 1 + of_nat 3) \<noteq> Used"
    using u5 by simp
  note e = release_run_effect [OF hos hf used inside stop]
  have hos': "frame_state k1 0x500 (101 - base_frame_no (obj k1 0x500)) = HoS"
    using hos by (simp only: b1) simp
  have r: "released (release_frames 101 k1) = release_found 101 0x500 k1"
    by (simp only: rel released_def option.case)
  have n8: "nFreeFrames (obj (release_found 101 0x500 k1) 0x500) = 8"
    using e(1) [of "0x500"] by (simp add: release_found_head_keeps(1) [OF hos'] n4)
  have fs: "frame_state (release_found 101 0x500 k1) 0x500 g =
      (if g = 1 \<or> (\<exists>j<3. g = 1 + 1 + of_nat j) then Free else frame_state k1 0x500 g)" for g
    by (simp only: release_found_head_keeps(2) [OF hos'] e(2))
  have e2: "\<exists>j<3. (2 :: ulong) = 1 + 1 + of_nat j"
    by (rule exI [of _ 0]) simp
  have e3: "\<exists>j<3. (3 :: ulong) = 1 + 1 + of_nat j"
    by (rule exI [of _ 1]) simp
  have e4: "\<exists>j<3. (4 :: ulong) = 1 + 1 + of_nat j"
    by (rule exI [of _ 2]) simp
  have g: "frame_state (release_found 101 0x500 k1) 0x500 2 = Free"
    "frame_state (release_found 101 0x500 k1) 0x500 3 = Free"
    "frame_state (release_found 101 0x500 k1) 0x500 4 = Free"
    using e2 e3 e4 by (simp_all only: fs if_True simp_thms)
  show ?thesis
    using reg s nf an n4 n8 g by (simp only: a r list.map simp_thms)
qed

section \<open>Reservation (claim C6)\<close>

text \<open>
  C6 does not hold of the code. \<open>mark_inaccessible\<close> for the three frames from frame 103
  on, in the pool of ten free-but-one frames, leaves all three \<open>Used\<close>, the first
  included, and leaves the free counter at 9.
\<close>

theorem mark_inaccessible_writes_no_head:
  "nFreeFrames (obj pool10 0x500) = 9
   \<and> map (frame_state pool10 0x500) [3, 4, 5] = [Free, Free, Free]
   \<and> map (frame_state (mark_inaccessible 0x500 103 3 pool10) 0x500) [3, 4, 5]
       = [Used, Used, Used]
   \<and> nFreeFrames (obj (mark_inaccessible 0x500 103 3 pool10) 0x500) = 9"
  by code_simp

section \<open>The free counter (claim C3)\<close>

text \<open>
  C3 does not hold of the code. After the same \<open>mark_inaccessible\<close> six frames of the
  pool are free and the free counter is 9; and right after the construction of the
  pool with its bitmap in frame 105 ten frames are free and the free counter is 9.
\<close>

theorem free_count_differs_from_free_frames:
  "free_frames pool10 0x500 = 9 \<and> nFreeFrames (obj pool10 0x500) = 9
   \<and> free_frames (mark_inaccessible 0x500 103 3 pool10) 0x500 = 6
   \<and> nFreeFrames (obj (mark_inaccessible 0x500 103 3 pool10) 0x500) = 9
   \<and> free_frames pool10_info105 0x500 = 10 \<and> nFreeFrames (obj pool10_info105 0x500) = 9"
  by code_simp

section \<open>Construction (claim C7)\<close>

text \<open>
  C7 does not hold of the code. Constructed with its bitmap in frame 105, the pool of
  ten frames from frame 100 on has all ten frames free, frame 105 among them, and the
  frame marked \<open>HoS\<close> is the one with index 105 in the pool's own numbering, outside the
  pool. Constructed over a stale byte, the pool has a frame in the reserved state. And
  the assertion reads the frame count the storage of the object held before: with
  40000 there, the construction of a pool of ten frames fails the assertion.
\<close>

theorem constructor_misses_info_frame:
  "map (frame_state pool10_info105 0x500) [0, 1, 2, 3, 4, 5, 6, 7, 8, 9]
     = [Free, Free, Free, Free, Free, Free, Free, Free, Free, Free]
   \<and> frame_state pool10_info105 0x500 105 = HoS
   \<and> base_frame_no (obj pool10_info105 0x500) = 100
   \<and> nframes (obj pool10_info105 0x500) = 10
   \<and> nFreeFrames (obj pool10_info105 0x500) = 9
   \<and> map (frame_state pool4_stale 0x500) [0, 1, 2, 3] = [HoS, Error, Free, Free]
   \<and> ContFramePool_ctor 4096 0x500 100 10 0
         (upd_obj 0x500 (\<lambda>p. p\<lparr>nframes := 40000\<rparr>) boot) = Inl AssertionFailed"
  by code_simp

section \<open>Allocation without a free run (claim C5)\<close>

text \<open>
  C5 does not hold of the code. In the pool of ten frames, nine of them free,
  \<open>get_frames 10\<close> answers frame 101, writes \<open>Used\<close> for index 10, which is past the
  last frame of the pool, and takes the free counter from 9 through zero to
  \<open>2 ^ 32 - 1\<close>. In the pool whose two free frames are not adjacent, \<open>get_frames 2\<close>
  answers frame 101 and overwrites the head of sequence in frame 102 with \<open>Used\<close>.
\<close>

theorem get_frames_overruns_pool:
  "nframes (obj pool10 0x500) = 10 \<and> free_frames pool10 0x500 = 9
   \<and> answer (get_frames 0x500 10 pool10) = Some (Inr 101)
   \<and> frame_state (allocated (get_frames 0x500 10 pool10)) 0x500 10 = Used
   \<and> nFreeFrames (obj (allocated (get_frames 0x500 10 pool10)) 0x500) = 0xFFFFFFFF
   \<and> map (frame_state fragmented 0x500) [0, 1, 2, 3] = [HoS, Free, HoS, Free]
   \<and> nFreeFrames (obj fragmented 0x500) = 2
   \<and> answer (get_frames 0x500 2 fragmented) = Some (Inr 101)
   \<and> frame_state (allocated (get_frames 0x500 2 fragmented)) 0x500 2 = Used"
proof -
  have nf: "nFreeFrames (obj pool10 0x500) = 9" and nfr: "nframes (obj pool10 0x500) = 10"
    and b: "base_frame_no (obj pool10 0x500) = 100"
    and f0: "frame_state pool10 0x500 0 = HoS" and f1: "frame_state pool10 0x500 1 = Free"
    and ff: "free_frames pool10 0x500 = 9"
    by code_simp+
  have free: "nFreeFrames (obj pool10 0x500) > 0"
    by (simp add: nf)
  have below: "\<forall>i. i < 1 \<longrightarrow> frame_state pool10 0x500 i = Used \<or> frame_state pool10 0x500 i = HoS"
    using f0 by (simp add: word_less_1)
  have ten: "(10 :: ulong) \<noteq> 0"
    by simp
  note m = get_frames_marks [OF free ten below f1]
  let ?k = "used_loop 0x500 (10 - 1) 0 (1 + 1)
              (upd_obj 0x500 (\<lambda>p. p\<lparr>nFreeFrames := nFreeFrames p - 1\<rparr>)
                (set_state 0x500 1 HoS pool10))"
  have a: "allocated (get_frames 0x500 10 pool10) = ?k"
    by (simp only: m(1) allocated_def option.case sum.case prod.case)
  have an: "answer (get_frames 0x500 10 pool10) = Some (Inr 101)"
    by (simp add: m(1) answer_def b)
  have s: "frame_state ?k 0x500 10 = Used"
    using m(3) [of 9] by simp
  have n: "nFreeFrames (obj ?k 0x500) = 0xFFFFFFFF"
    using m(5) by (simp add: nf)
  have gs: "map (frame_state fragmented 0x500) [0, 1, 2, 3] = [HoS, Free, HoS, Free]"
    and gn: "nFreeFrames (obj fragmented 0x500) = 2"
    and gb: "base_frame_no (obj fragmented 0x500) = 100"
    by code_simp+
  have gfree: "nFreeFrames (obj fragmented 0x500) > 0"
    by (simp add: gn)
  have gbelow: "\<forall>i. i < 1 \<longrightarrow>
      frame_state fragmented 0x500 i = Used \<or> frame_state fragmented 0x500 i = HoS"
    using gs by (simp add: word_less_1)
  have g1: "frame_state fragmented 0x500 1 = Free"
    using gs by simp
  have two: "(2 :: ulong) \<noteq> 0"
    by simp
  note g = get_frames_marks [OF gfree two gbelow g1]
  let ?g = "used_loop 0x500 (2 - 1) 0 (1 + 1)
              (upd_obj 0x500 (\<lambda>p. p\<lparr>nFreeFrames := nFreeFrames p - 1\<rparr>)
                (set_state 0x500 1 HoS fragmented))"
  have ga: "allocated (get_frames 0x500 2 fragmented) = ?g"
    by (simp only: g(1) allocated_def option.case sum.case prod.case)
  have gan: "answer (get_frames 0x500 2 fragmented) = Some (Inr 101)"
    by (simp add: g(1) answer_def gb)
  have gu: "frame_state ?g 0x500 2 = Used"
    using g(3) [of 1] by simp
  show ?thesis
    using nfr ff an s n gs gn gan gu by (simp only: a ga simp_thms)
qed

end
